theory Spec2Isabelle
  imports Main "HOL-Library.Word"
begin

section \<open>The response wrapper (response\_writer.go)\<close>

text \<open>
  The wrapped \<^verbatim>\<open>http.ResponseWriter\<close> is an external collaborator, the sink. It is
  modelled by the log of the calls it receives (\<open>SinkStatus\<close> for \<^verbatim>\<open>WriteHeader\<close>,
  \<open>SinkBody\<close> for \<^verbatim>\<open>Write\<close>, \<open>SinkFlush\<close> for \<^verbatim>\<open>Flush\<close>), by the count its \<^verbatim>\<open>Write\<close>
  reports for a body (\<open>reports\<close>), and by whether it implements \<^verbatim>\<open>http.Flusher\<close>
  (\<open>flusher\<close>). The sink is taken to return from every call. A Go \<^verbatim>\<open>int\<close> that is added
  to is a word of 64 bits, as it is on a 64-bit platform; a status code is only stored
  and compared.

  A \<^verbatim>\<open>BeforeFunc\<close> is identified by a label; running it is recorded in the same log
  (\<open>HookRun\<close>), so that the order of hook calls and sink calls can be read off. Hooks
  that call back into the wrapper are outside the model.
\<close>

datatype event = HookRun nat | SinkStatus int | SinkBody string | SinkFlush

record sink =
  reports :: "string \<Rightarrow> 64 word"
  flusher :: bool

record responseWriter =
  ResponseWriter :: sink
  log :: "event list"
  status :: int
  size :: "64 word"
  beforeFuncs :: "nat list"

definition NewResponseWriter :: "sink \<Rightarrow> responseWriter" where
  "NewResponseWriter snk =
     \<lparr>ResponseWriter = snk, log = [], status = 0, size = 0, beforeFuncs = []\<rparr>"

definition StatusOK :: int where
  "StatusOK = 200"

definition Status :: "responseWriter \<Rightarrow> int" where
  "Status rw = status rw"

definition Size :: "responseWriter \<Rightarrow> 64 word" where
  "Size rw = size rw"

definition Written :: "responseWriter \<Rightarrow> bool" where
  "Written rw = (status rw \<noteq> 0)"

definition Before :: "nat \<Rightarrow> responseWriter \<Rightarrow> responseWriter" where
  "Before before rw = rw\<lparr>beforeFuncs := beforeFuncs rw @ [before]\<rparr>"

text \<open>
  \<^verbatim>\<open>for i := len(rw.beforeFuncs) - 1; i >= 0; i-- { rw.beforeFuncs[i](rw) }\<close>:
  \<open>callBeforeFrom n\<close> is the loop with \<open>i = n - 1\<close>.
\<close>

fun callBeforeFrom :: "nat \<Rightarrow> responseWriter \<Rightarrow> responseWriter" where
  "callBeforeFrom 0 rw = rw"
| "callBeforeFrom (Suc i) rw =
     callBeforeFrom i (rw\<lparr>log := log rw @ [HookRun (beforeFuncs rw ! i)]\<rparr>)"

definition callBefore :: "responseWriter \<Rightarrow> responseWriter" where
  "callBefore rw = callBeforeFrom (length (beforeFuncs rw)) rw"

definition WriteHeader :: "int \<Rightarrow> responseWriter \<Rightarrow> responseWriter" where
  "WriteHeader s rw =
     (let rw1 = callBefore rw;
          rw2 = rw1\<lparr>log := log rw1 @ [SinkStatus s]\<rparr>
      in rw2\<lparr>status := s\<rparr>)"

text \<open>
  \<open>Write\<close> returns the count reported by the sink together with the new wrapper;
  \<^verbatim>\<open>rw.size += size\<close> is an addition of 64-bit words and wraps around.
\<close>

definition Write :: "string \<Rightarrow> responseWriter \<Rightarrow> 64 word \<times> responseWriter" where
  "Write b rw =
     (let rw1 = (if \<not> Written rw then WriteHeader StatusOK rw else rw);
          n = reports (ResponseWriter rw1) b;
          rw2 = rw1\<lparr>log := log rw1 @ [SinkBody b]\<rparr>
      in (n, rw2\<lparr>size := size rw2 + n\<rparr>))"

text \<open>
  \<^verbatim>\<open>Flush\<close> calls the \<^verbatim>\<open>Flush\<close> of the sink when the sink is an \<^verbatim>\<open>http.Flusher\<close>, and does
  nothing otherwise. It runs no hook and touches no field of the wrapper.
\<close>

definition Flush :: "responseWriter \<Rightarrow> responseWriter" where
  "Flush rw = (if flusher (ResponseWriter rw) then rw\<lparr>log := log rw @ [SinkFlush]\<rparr> else rw)"

text \<open>
  A sequence of calls on one wrapper, and a sink as a test recorder is one: it reports
  every byte written and can be flushed.
\<close>

datatype rw_op = OpWriteHeader int | OpWrite string | OpBefore nat | OpFlush

fun apply_rw_op :: "rw_op \<Rightarrow> responseWriter \<Rightarrow> responseWriter" where
  "apply_rw_op (OpWriteHeader s) rw = WriteHeader s rw"
| "apply_rw_op (OpWrite b) rw = snd (Write b rw)"
| "apply_rw_op (OpBefore h) rw = Before h rw"
| "apply_rw_op OpFlush rw = Flush rw"

fun apply_rw_ops :: "rw_op list \<Rightarrow> responseWriter \<Rightarrow> responseWriter" where
  "apply_rw_ops [] rw = rw"
| "apply_rw_ops (x # xs) rw = apply_rw_ops xs (apply_rw_op x rw)"

definition recorder :: sink where
  "recorder = \<lparr>reports = (\<lambda>b. of_nat (length b)), flusher = True\<rparr>"

subsection \<open>Properties of the response wrapper\<close>

lemma callBeforeFrom_fields:
  "ResponseWriter (callBeforeFrom n rw) = ResponseWriter rw \<and>
   status (callBeforeFrom n rw) = status rw \<and>
   size (callBeforeFrom n rw) = size rw \<and> beforeFuncs (callBeforeFrom n rw) = beforeFuncs rw"
  by (induction n arbitrary: rw) auto

lemma callBeforeFrom_log:
  "n \<le> length (beforeFuncs rw) \<Longrightarrow>
   log (callBeforeFrom n rw) = log rw @ map HookRun (rev (take n (beforeFuncs rw)))"
proof (induction n arbitrary: rw)
  case 0
  then show ?case by simp
next
  case (Suc n)
  then show ?case by (simp add: take_Suc_conv_app_nth)
qed

lemma callBefore_log: "log (callBefore rw) = log rw @ map HookRun (rev (beforeFuncs rw))"
  by (simp add: callBefore_def callBeforeFrom_log)

lemma WriteHeader_log:
  "log (WriteHeader s rw) = log rw @ map HookRun (rev (beforeFuncs rw)) @ [SinkStatus s]"
  by (simp add: WriteHeader_def Let_def callBefore_log)

lemma WriteHeader_fields:
  "status (WriteHeader s rw) = s \<and> size (WriteHeader s rw) = size rw \<and>
   beforeFuncs (WriteHeader s rw) = beforeFuncs rw \<and>
   ResponseWriter (WriteHeader s rw) = ResponseWriter rw"
  by (simp add: WriteHeader_def Let_def callBefore_def callBeforeFrom_fields)

lemma Written_WriteHeader: "Written (WriteHeader s rw) = (s \<noteq> 0)"
  by (simp add: Written_def WriteHeader_fields)

lemma Write_log:
  "log (snd (Write b rw)) =
     (if Written rw then log rw @ [SinkBody b]
      else log rw @ map HookRun (rev (beforeFuncs rw)) @ [SinkStatus StatusOK, SinkBody b])"
  by (simp add: Write_def Let_def WriteHeader_log)

lemma Write_fields:
  "status (snd (Write b rw)) = (if Written rw then status rw else StatusOK) \<and>
   size (snd (Write b rw)) = size rw + reports (ResponseWriter rw) b \<and>
   fst (Write b rw) = reports (ResponseWriter rw) b \<and>
   beforeFuncs (snd (Write b rw)) = beforeFuncs rw \<and>
   ResponseWriter (snd (Write b rw)) = ResponseWriter rw"
  by (simp add: Write_def Let_def WriteHeader_fields)

lemma Written_Write: "Written (snd (Write b rw))"
  by (simp add: Written_def Write_fields StatusOK_def)

text \<open>
  C5: every registered before-hook runs exactly once per response, in reverse
  registration order, before the first status or byte reaches the sink, also when
  \<^verbatim>\<open>WriteHeader\<close> is invoked more than once. This is what the documentation of \<^verbatim>\<open>Before\<close>
  and \<^verbatim>\<open>BeforeFunc\<close> promises (a function called before the \<^verbatim>\<open>ResponseWriter\<close> has been
  written to), and the code does not keep it: \<^verbatim>\<open>WriteHeader\<close> calls \<^verbatim>\<open>callBefore\<close> without
  looking at \<^verbatim>\<open>Written()\<close>. With two hooks registered, a second \<^verbatim>\<open>WriteHeader\<close> runs both
  of them again, after status 200 has reached the sink.
\<close>

theorem before_hooks_run_again:
  "log (apply_rw_ops [OpBefore 1, OpBefore 2, OpWriteHeader 200, OpWriteHeader 404]
         (NewResponseWriter recorder))
   = [HookRun 2, HookRun 1, SinkStatus 200, HookRun 2, HookRun 1, SinkStatus 404]"
  by (simp add: NewResponseWriter_def Before_def WriteHeader_def Let_def callBefore_def)

text \<open>
  C6: the first \<^verbatim>\<open>Write\<close> on an unwritten wrapper sets status 200 first, a second
  \<^verbatim>\<open>Write\<close> leaves the recorded status alone and adds to the byte count, and \<^verbatim>\<open>Written()\<close>
  becomes true after the first status-set and stays true. The documentation of
  \<^verbatim>\<open>Status\<close> and \<^verbatim>\<open>Written\<close> reads status 0 as "the response has not been written", and
  the code does not keep the last part: \<^verbatim>\<open>WriteHeader\<close> stores any code it is given, so
  \<^verbatim>\<open>WriteHeader(0)\<close> on a written wrapper hands the code to the sink and makes the wrapper
  report unwritten again; the next \<^verbatim>\<open>Write\<close> then sets status 200 a second time.
\<close>

theorem written_is_reset:
  "Written (apply_rw_ops [OpWriteHeader 404] (NewResponseWriter recorder))
   \<and> \<not> Written (apply_rw_ops [OpWriteHeader 404, OpWriteHeader 0] (NewResponseWriter recorder))
   \<and> Status (apply_rw_ops [OpWriteHeader 404, OpWriteHeader 0] (NewResponseWriter recorder)) = 0
   \<and> log (apply_rw_ops [OpWriteHeader 404, OpWriteHeader 0, OpWrite ''x'']
            (NewResponseWriter recorder))
       = [SinkStatus 404, SinkStatus 0, SinkStatus 200, SinkBody ''x'']"
  by (simp add: NewResponseWriter_def WriteHeader_def Write_def Let_def callBefore_def
      Written_def Status_def StatusOK_def)

section \<open>The default return handler (defaultReturnHandler)\<close>

text \<open>
  The handler works on \<^verbatim>\<open>reflect.Value\<close>s. \<^verbatim>\<open>reflect.Kind\<close> has 27 values. The handler
  tells six of them apart, which are constructors of \<open>kind\<close>; the other 21 are the
  constructors of \<open>other_kind\<close>.
\<close>

datatype other_kind =
    Bool | Int8 | Int16 | Int32 | Int64
  | Uint | Uint8 | Uint16 | Uint32 | Uint64 | Uintptr
  | Float32 | Float64 | Complex64 | Complex128
  | Array | Chan | Func | Map | Struct | UnsafePointer

datatype kind = Invalid | IntKind | Interface | Ptr | Slice | String | OtherKind other_kind

text \<open>
  A value is modelled by what the handler can observe of it. Every value but the zero
  \<^verbatim>\<open>reflect.Value\<close> (\<open>Zero\<close>) carries the name \<open>t\<close> of its type, as \<^verbatim>\<open>Type().String()\<close>
  prints it.
  \<^item> \<open>IntVal t n\<close>: the integer \<open>n\<close> of a type of kind \<^verbatim>\<open>Int\<close>, which is \<^verbatim>\<open>int\<close> or a type
    defined from it.
  \<^item> \<open>StringVal t s\<close>: the string \<open>s\<close> of a type of kind \<^verbatim>\<open>String\<close>, which is \<^verbatim>\<open>string\<close> or
    a type defined from it.
  \<^item> \<open>SliceVal t k bs\<close>: a slice whose elements have kind \<open>k\<close>; \<open>bs\<close> are its elements
    when they are bytes (\<open>k\<close> is \<open>Uint8\<close>) and has no meaning otherwise.
  \<^item> \<open>Pointer t v\<close>: a pointer to \<open>v\<close>, and \<open>Iface t v\<close>: a value of interface type \<open>t\<close>
    that holds \<open>v\<close>; \<open>v\<close> is \<open>Zero\<close> for \<^verbatim>\<open>nil\<close>.
  \<^item> \<open>Other k t\<close>: a value of any other kind.
\<close>

datatype rvalue =
    Zero
  | IntVal string int
  | StringVal string string
  | SliceVal string kind string
  | Pointer string rvalue
  | Iface string rvalue
  | Other other_kind string

fun Kind :: "rvalue \<Rightarrow> kind" where
  "Kind Zero = Invalid"
| "Kind (IntVal t n) = IntKind"
| "Kind (StringVal t s) = String"
| "Kind (SliceVal t k bs) = Slice"
| "Kind (Pointer t v) = Ptr"
| "Kind (Iface t v) = Interface"
| "Kind (Other k t) = OtherKind k"

text \<open>\<^verbatim>\<open>val.Type().Elem().Kind()\<close>, read only for a value of kind \<open>Slice\<close>.\<close>

fun ElemKind :: "rvalue \<Rightarrow> kind" where
  "ElemKind (SliceVal t k bs) = k"
| "ElemKind _ = Invalid"

fun TypeString :: "rvalue \<Rightarrow> string" where
  "TypeString Zero = ''invalid''"
| "TypeString (IntVal t n) = t"
| "TypeString (StringVal t s) = t"
| "TypeString (SliceVal t k bs) = t"
| "TypeString (Pointer t v) = t"
| "TypeString (Iface t v) = t"
| "TypeString (Other k t) = t"

text \<open>
  \<^verbatim>\<open>String()\<close> is the string itself for a value of kind \<open>String\<close> and \<^verbatim>\<open><T Value>\<close> for a
  value of any other type \<^verbatim>\<open>T\<close>.
\<close>

fun StringOf :: "rvalue \<Rightarrow> string" where
  "StringOf (StringVal t s) = s"
| "StringOf v = ''<'' @ TypeString v @ '' Value>''"

text \<open>
  \<^verbatim>\<open>Elem\<close>, \<^verbatim>\<open>Bytes\<close> and \<^verbatim>\<open>Int\<close> panic on values of other kinds; the handler calls
  each of them behind a test of the kind, so the last equation of each is never
  reached.
\<close>

fun Elem :: "rvalue \<Rightarrow> rvalue" where
  "Elem (Pointer t v) = v"
| "Elem (Iface t v) = v"
| "Elem v = Zero"

fun Bytes :: "rvalue \<Rightarrow> string" where
  "Bytes (SliceVal t k bs) = bs"
| "Bytes v = []"

fun IntOf :: "rvalue \<Rightarrow> int" where
  "IntOf (IntVal t n) = n"
| "IntOf v = 0"

definition isByteSlice :: "rvalue \<Rightarrow> bool" where
  "isByteSlice val = (Kind val = Slice \<and> ElemKind val = OtherKind Uint8)"

definition canDeref :: "rvalue \<Rightarrow> bool" where
  "canDeref val = (Kind val = Interface \<or> Kind val = Ptr)"

text \<open>
  \<open>res\<close> is the response writer found in the context: the wrapper that
  \<^verbatim>\<open>createContext\<close> maps for \<^verbatim>\<open>http.ResponseWriter\<close>. The results of \<^verbatim>\<open>res.Write\<close> are
  dropped by the handler.
\<close>

definition defaultReturnHandler :: "responseWriter \<Rightarrow> rvalue list \<Rightarrow> responseWriter" where
  "defaultReturnHandler res vals =
     (let (res1, responseVal) =
            (if length vals > 1 \<and> Kind (vals ! 0) = IntKind
               then (WriteHeader (IntOf (vals ! 0)) res, vals ! 1)
             else if length vals > 0 then (res, vals ! 0)
             else (res, Zero));
          responseVal1 = (if canDeref responseVal then Elem responseVal else responseVal)
      in if isByteSlice responseVal1 then snd (Write (Bytes responseVal1) res1)
         else snd (Write (StringOf responseVal1) res1))"

text \<open>
  The value rule in the words of the specification, written out by the form of the
  value: the raw bytes of a byte slice, the string of a string, and the textual form
  \<^verbatim>\<open><T Value>\<close> of a value of any other type \<^verbatim>\<open>T\<close>; a pointer or an interface value is
  unwrapped one level first.
\<close>

definition angled :: "string \<Rightarrow> string" where
  "angled t = ''<'' @ t @ '' Value>''"

definition text_form :: "rvalue \<Rightarrow> string" where
  "text_form v =
     (case v of
        Zero \<Rightarrow> angled ''invalid''
      | IntVal t n \<Rightarrow> angled t
      | StringVal t s \<Rightarrow> s
      | SliceVal t k bs \<Rightarrow> (if k = OtherKind Uint8 then bs else angled t)
      | Pointer t u \<Rightarrow> angled t
      | Iface t u \<Rightarrow> angled t
      | Other k t \<Rightarrow> angled t)"

definition written_form :: "rvalue \<Rightarrow> string" where
  "written_form v =
     (case v of
        Pointer t u \<Rightarrow> text_form u
      | Iface t u \<Rightarrow> text_form u
      | _ \<Rightarrow> text_form v)"

definition integer_kinded :: "rvalue \<Rightarrow> bool" where
  "integer_kinded v = (case v of IntVal t n \<Rightarrow> True | _ \<Rightarrow> False)"

text \<open>The calls that reached the sink, counted by sort.\<close>

fun is_status_set :: "event \<Rightarrow> bool" where
  "is_status_set (SinkStatus s) = True"
| "is_status_set _ = False"

fun is_body_write :: "event \<Rightarrow> bool" where
  "is_body_write (SinkBody b) = True"
| "is_body_write _ = False"

definition status_sets :: "event list \<Rightarrow> nat" where
  "status_sets es = length (filter is_status_set es)"

definition body_writes :: "event list \<Rightarrow> nat" where
  "body_writes es = length (filter is_body_write es)"

subsection \<open>Properties of the default return handler\<close>

lemma counts_hooks [simp]:
  "filter is_status_set (map HookRun hs) = []" "filter is_body_write (map HookRun hs) = []"
  by (induction hs) simp_all

lemma counts_WriteHeader:
  "status_sets (log (WriteHeader s res)) = status_sets (log res) + 1"
  "body_writes (log (WriteHeader s res)) = body_writes (log res)"
  by (simp_all add: status_sets_def body_writes_def WriteHeader_log)

lemma counts_Write:
  "status_sets (log (snd (Write b res))) = status_sets (log res) + (if Written res then 0 else 1)"
  "body_writes (log (snd (Write b res))) = body_writes (log res) + 1"
  by (simp_all add: status_sets_def body_writes_def Write_log)

lemma text_form_code:
  "(if isByteSlice v then Bytes v else StringOf v) = text_form v"
  by (cases v) (simp_all add: isByteSlice_def text_form_def angled_def)

lemma written_form_code:
  "(let u = (if canDeref v then Elem v else v) in if isByteSlice u then Bytes u else StringOf u)
     = written_form v"
  by (cases v) (simp_all add: canDeref_def written_form_def text_form_code Let_def)

lemma defaultReturnHandler_two:
  "defaultReturnHandler res (IntVal t n # v # rest) = snd (Write (written_form v) (WriteHeader n res))"
  using written_form_code [of v]
  by (simp add: defaultReturnHandler_def Let_def split: if_splits)

lemma defaultReturnHandler_first:
  "\<not> integer_kinded v \<or> rest = [] \<Longrightarrow>
   defaultReturnHandler res (v # rest) = snd (Write (written_form v) res)"
  using written_form_code [of v]
  by (cases v) (auto simp add: defaultReturnHandler_def integer_kinded_def Let_def split: if_splits)

lemma defaultReturnHandler_none:
  "defaultReturnHandler res [] = snd (Write ''<invalid Value>'' res)"
  by (simp add: defaultReturnHandler_def Let_def canDeref_def isByteSlice_def)

lemma defaultReturnHandler_one_body:
  "body_writes (log (defaultReturnHandler res vals)) = body_writes (log res) + 1"
proof (cases vals)
  case Nil
  then show ?thesis by (simp add: defaultReturnHandler_none counts_Write)
next
  case (Cons v rest)
  show ?thesis
  proof (cases "\<not> integer_kinded v \<or> rest = []")
    case True
    then show ?thesis using Cons by (simp add: defaultReturnHandler_first counts_Write)
  next
    case False
    then obtain w rest' where "rest = w # rest'" by (cases rest) auto
    moreover from False obtain t n where "v = IntVal t n"
      by (cases v) (auto simp: integer_kinded_def)
    ultimately show ?thesis using Cons
      by (simp add: defaultReturnHandler_two counts_Write counts_WriteHeader)
  qed
qed

text \<open>
  C7, as stated: exactly one status-set occurs per invocation. A handler that has set the
  status itself and returns one value gets no status-set from the return handler: the
  invocation only adds the body.
\<close>

theorem return_handler_no_status_counterexample:
  "log (defaultReturnHandler (WriteHeader 404 (NewResponseWriter recorder))
          [StringVal ''string'' ''gone''])
     = log (WriteHeader 404 (NewResponseWriter recorder)) @ [SinkBody ''gone'']
   \<and> status_sets (log (defaultReturnHandler (WriteHeader 404 (NewResponseWriter recorder))
          [StringVal ''string'' ''gone'']))
     = status_sets (log (WriteHeader 404 (NewResponseWriter recorder)))"
  by (simp add: defaultReturnHandler_first integer_kinded_def written_form_def text_form_def
      Write_log Written_WriteHeader status_sets_def)

text \<open>
  C7, amended: given two return values of which the first has kind \<^verbatim>\<open>reflect.Int\<close>, the
  handler writes the first as the response status and then the second by the value
  rule; given one return value it writes that value by the value rule: one pointer or
  interface level is unwrapped, then the raw bytes of a byte slice are written, and the
  result of \<^verbatim>\<open>String()\<close> for anything else, which is the string of a value of kind
  \<^verbatim>\<open>String\<close> and \<^verbatim>\<open><T Value>\<close> for a value of another type \<^verbatim>\<open>T\<close>. Every invocation makes
  exactly one body write. It makes exactly one status-set when an explicit status other
  than 0 is given and when a single value is written to a response not yet written,
  and no status-set when a single value is written to a response already written.
\<close>

theorem defaultReturnHandler_writes:
  "defaultReturnHandler res (IntVal t n # v # rest)
     = snd (Write (written_form v) (WriteHeader n res))
   \<and> (n \<noteq> 0 \<longrightarrow>
        log (defaultReturnHandler res (IntVal t n # v # rest))
          = log res @ map HookRun (rev (beforeFuncs res)) @ [SinkStatus n, SinkBody (written_form v)]
        \<and> status_sets (log (defaultReturnHandler res (IntVal t n # v # rest)))
            = status_sets (log res) + 1)
   \<and> defaultReturnHandler res [v] = snd (Write (written_form v) res)
   \<and> log (defaultReturnHandler res [v])
       = (if Written res then log res @ [SinkBody (written_form v)]
          else log res @ map HookRun (rev (beforeFuncs res))
                 @ [SinkStatus 200, SinkBody (written_form v)])
   \<and> status_sets (log (defaultReturnHandler res [v]))
       = status_sets (log res) + (if Written res then 0 else 1)
   \<and> body_writes (log (defaultReturnHandler res vals)) = body_writes (log res) + 1
   \<and> written_form (SliceVal t1 (OtherKind Uint8) bs) = bs
   \<and> written_form (StringVal t1 s) = s
   \<and> written_form (IntVal t1 m) = ''<'' @ t1 @ '' Value>''
   \<and> written_form (Other k t1) = ''<'' @ t1 @ '' Value>''
   \<and> (k1 \<noteq> OtherKind Uint8 \<longrightarrow> written_form (SliceVal t1 k1 bs) = ''<'' @ t1 @ '' Value>'')
   \<and> written_form (Pointer t2 (SliceVal t1 (OtherKind Uint8) bs)) = bs
   \<and> written_form (Pointer t2 (StringVal t1 s)) = s
   \<and> written_form (Iface t2 (SliceVal t1 (OtherKind Uint8) bs)) = bs
   \<and> written_form (Iface t2 (StringVal t1 s)) = s
   \<and> written_form (Iface t2 (Pointer t1 u)) = ''<'' @ t1 @ '' Value>''
   \<and> written_form (Pointer t2 (Pointer t1 u)) = ''<'' @ t1 @ '' Value>''
   \<and> written_form (Pointer t2 Zero) = ''<invalid Value>''
   \<and> written_form (Iface t2 Zero) = ''<invalid Value>''"
proof -
  have two: "defaultReturnHandler res (IntVal t n # v # rest)
     = snd (Write (written_form v) (WriteHeader n res))"
    by (rule defaultReturnHandler_two)
  have one: "defaultReturnHandler res [v] = snd (Write (written_form v) res)"
    by (simp add: defaultReturnHandler_first)
  have l2a: "n \<noteq> 0 \<longrightarrow>
        log (defaultReturnHandler res (IntVal t n # v # rest))
          = log res @ map HookRun (rev (beforeFuncs res)) @ [SinkStatus n, SinkBody (written_form v)]"
    by (simp add: two Write_log Written_WriteHeader WriteHeader_log)
  have l2b: "n \<noteq> 0 \<longrightarrow>
        status_sets (log (defaultReturnHandler res (IntVal t n # v # rest)))
            = status_sets (log res) + 1"
    unfolding two by (simp only: counts_Write counts_WriteHeader Written_WriteHeader) simp
  have l1: "log (defaultReturnHandler res [v])
       = (if Written res then log res @ [SinkBody (written_form v)]
          else log res @ map HookRun (rev (beforeFuncs res))
                 @ [SinkStatus 200, SinkBody (written_form v)])"
    by (simp add: one Write_log StatusOK_def)
  have s1: "status_sets (log (defaultReturnHandler res [v]))
       = status_sets (log res) + (if Written res then 0 else 1)"
    by (simp add: one counts_Write)
  show ?thesis
    using two l2a l2b one l1 s1 defaultReturnHandler_one_body [of res vals]
    by (simp add: written_form_def text_form_def angled_def)
qed

theorem defaultReturnHandler_writes_witness:
  "log (defaultReturnHandler (NewResponseWriter recorder)
          [IntVal ''main.Code'' 201, Pointer ''*[]uint8'' (SliceVal ''[]uint8'' (OtherKind Uint8) ''made'')])
     = [SinkStatus 201, SinkBody ''made'']
   \<and> status_sets (log (defaultReturnHandler (NewResponseWriter recorder)
        [IntVal ''main.Code'' 201, Pointer ''*[]uint8'' (SliceVal ''[]uint8'' (OtherKind Uint8) ''made'')])) = 1
   \<and> log (defaultReturnHandler (NewResponseWriter recorder) [StringVal ''template.HTML'' ''<b>''])
     = [SinkStatus 200, SinkBody ''<b>'']
   \<and> written_form (SliceVal ''[]int'' IntKind []) = ''<[]int Value>''"
  using defaultReturnHandler_writes [where res = "NewResponseWriter recorder"
      and t = "''main.Code''" and n = 201 and rest = "[]"
      and v = "Pointer ''*[]uint8'' (SliceVal ''[]uint8'' (OtherKind Uint8) ''made'')"
      and ?t1.0 = "''[]int''" and ?k1.0 = IntKind and bs = "[]"]
    defaultReturnHandler_writes [where res = "NewResponseWriter recorder"
      and v = "StringVal ''template.HTML'' ''<b>''"]
  by (simp add: NewResponseWriter_def status_sets_def Written_def Write_log WriteHeader_log
      StatusOK_def WriteHeader_fields)

text \<open>
  C10: when a handler returns two or more values and the first is not of kind
  \<^verbatim>\<open>reflect.Int\<close>, the handler writes the first value only, by the value rule (the bytes
  of a byte slice, the string of a string), exactly as if it had been returned alone;
  the other values are dropped and no explicit status is set: the only status the sink
  can get is the implicit 200 of a first write.
\<close>

theorem defaultReturnHandler_discards_rest:
  "(\<not> integer_kinded v \<longrightarrow>
      defaultReturnHandler res (v # w # rest) = snd (Write (written_form v) res)
      \<and> defaultReturnHandler res (v # w # rest) = defaultReturnHandler res [v]
      \<and> log (defaultReturnHandler res (v # w # rest)) =
          (if Written res then log res @ [SinkBody (written_form v)]
           else log res @ map HookRun (rev (beforeFuncs res))
                  @ [SinkStatus 200, SinkBody (written_form v)])
      \<and> status (defaultReturnHandler res (v # w # rest))
          = (if Written res then status res else 200))
   \<and> log (defaultReturnHandler res (SliceVal t (OtherKind Uint8) bs # w # rest)) =
       (if Written res then log res @ [SinkBody bs]
        else log res @ map HookRun (rev (beforeFuncs res)) @ [SinkStatus 200, SinkBody bs])
   \<and> log (defaultReturnHandler res (StringVal t s # w # rest)) =
       (if Written res then log res @ [SinkBody s]
        else log res @ map HookRun (rev (beforeFuncs res)) @ [SinkStatus 200, SinkBody s])
   \<and> log (defaultReturnHandler res (Other k t # w # rest)) =
       (if Written res then log res @ [SinkBody (''<'' @ t @ '' Value>'')]
        else log res @ map HookRun (rev (beforeFuncs res))
               @ [SinkStatus 200, SinkBody (''<'' @ t @ '' Value>'')])
   \<and> log (defaultReturnHandler res (Iface t (StringVal t1 s) # w # rest)) =
       (if Written res then log res @ [SinkBody s]
        else log res @ map HookRun (rev (beforeFuncs res)) @ [SinkStatus 200, SinkBody s])"
  by (simp add: defaultReturnHandler_first Write_log Write_fields StatusOK_def
      integer_kinded_def written_form_def text_form_def angled_def)

theorem defaultReturnHandler_discards_rest_witness:
  "log (defaultReturnHandler (NewResponseWriter recorder)
         [StringVal ''string'' ''ok'',
          Iface ''error'' (Pointer ''*errors.errorString'' (Other Struct ''errors.errorString''))])
     = [SinkStatus 200, SinkBody ''ok'']
   \<and> log (defaultReturnHandler (NewResponseWriter recorder)
         [SliceVal ''[]uint8'' (OtherKind Uint8) ''raw'', Iface ''error'' Zero])
     = [SinkStatus 200, SinkBody ''raw'']"
  using defaultReturnHandler_discards_rest [where v = "StringVal ''string'' ''ok''"
      and res = "NewResponseWriter recorder" and rest = "[]"
      and w = "Iface ''error'' (Pointer ''*errors.errorString'' (Other Struct ''errors.errorString''))",
      THEN conjunct1]
    defaultReturnHandler_discards_rest [where v = "SliceVal ''[]uint8'' (OtherKind Uint8) ''raw''"
      and res = "NewResponseWriter recorder" and w = "Iface ''error'' Zero" and rest = "[]",
      THEN conjunct1]
  by (simp add: integer_kinded_def written_form_def text_form_def Written_def
      NewResponseWriter_def Write_log StatusOK_def)

section \<open>The router (router.go)\<close>

subsection \<open>Failures\<close>

text \<open>
  Every panic of the source is a value of \<open>error\<close>: the three panics with a message of
  the repository, the panic of \<^verbatim>\<open>regexp.MustCompile\<close> on an invalid expression, the
  run-time panic of a slice expression out of range, the panic of a pipeline on an
  error of \<^verbatim>\<open>Invoke\<close> and a panic raised by a handler.
  \<open>RegexpNotModelled\<close> is no behaviour of the program: the model of \<^verbatim>\<open>MustCompile\<close>
  answers it for an expression outside the syntax it covers.
\<close>

datatype error =
    RouteNotFound
  | BadURLForArgument
  | HandlerNotCallable
  | InvalidContextIndex
  | RegexpInvalid
  | RegexpNotModelled
  | SliceBoundsOutOfRange
  | InvokeFailed
  | HandlerPanicked

subsection \<open>Handlers\<close>

text \<open>
  A handler is any Go value. A callable one is modelled by what it does when invoked: a
  sequence of calls on the response writer and on the context it was given, and the
  values it returns. The flag says whether every argument it declares can be injected.
\<close>

datatype action = DoWriteHeader int | DoWrite string | DoBefore nat | DoNext | DoPanic

datatype handler = Callable bool "action list" "rvalue list" | NotCallable

definition validateHandler :: "handler \<Rightarrow> error + unit" where
  "validateHandler h = (case h of NotCallable \<Rightarrow> Inl HandlerNotCallable | Callable ok body rets \<Rightarrow> Inr ())"

subsection \<open>Regular expressions\<close>

text \<open>Decimal rendering of an integer (\<^verbatim>\<open>strconv.FormatInt(n, 10)\<close>, \<^verbatim>\<open>%d\<close>).\<close>

fun digits :: "nat \<Rightarrow> string" where
  "digits n = (if n < 10 then [''0123456789'' ! n]
               else digits (n div 10) @ [''0123456789'' ! (n mod 10)])"

declare digits.simps [simp del]

definition FormatInt :: "int \<Rightarrow> string" where
  "FormatInt n = (if n < 0 then CHR ''-'' # digits (nat (- n)) else digits (nat n))"

text \<open>
  The expression \<^verbatim>\<open>:[^/#?()\.\\]+\<close> of \<^verbatim>\<open>newRoute\<close> and \<^verbatim>\<open>URLWith\<close>: a colon and the
  longest non-empty run of characters other than \<^verbatim>\<open>/ # ? ( ) . \\<close>. \<open>param_split\<close>
  cuts a string into its leftmost non-overlapping matches and the characters between
  them, which is the traversal of \<^verbatim>\<open>ReplaceAllStringFunc\<close>.
\<close>

definition param_char :: "char \<Rightarrow> bool" where
  "param_char c = (c \<notin> {CHR ''/'', CHR ''#'', CHR ''?'', CHR ''('', CHR '')'', CHR ''.'', CHR 0x5C})"

datatype piece = Other char | Matched string

function param_split :: "string \<Rightarrow> piece list" where
  "param_split [] = []"
| "param_split (c # cs) =
     (if c = CHR '':'' \<and> takeWhile param_char cs \<noteq> []
      then Matched (c # takeWhile param_char cs) # param_split (dropWhile param_char cs)
      else Other c # param_split cs)"
  by pat_completeness auto
termination
  by (relation "measure length") (auto simp: length_dropWhile_le le_imp_less_Suc)

definition ReplaceAllStringFunc :: "piece list \<Rightarrow> (string \<Rightarrow> string) \<Rightarrow> string" where
  "ReplaceAllStringFunc ps repl =
     concat (map (\<lambda>p. case p of Other c \<Rightarrow> [c] | Matched m \<Rightarrow> repl m) ps)"

text \<open>
  The second replacement of \<^verbatim>\<open>newRoute\<close>: every leftmost non-overlapping \<^verbatim>\<open>**\<close> becomes
  \<^verbatim>\<open>(?P<_N>[^#?]*)\<close>, \<open>N\<close> counting the replacements from 1 (the closure increments
  \<open>index\<close> before it formats).
\<close>

fun replace_stars :: "nat \<Rightarrow> string \<Rightarrow> string" where
  "replace_stars index (a # b # cs) =
     (if a = CHR ''*'' \<and> b = CHR ''*''
      then ''(?P<_'' @ FormatInt (int (index + 1)) @ ''>[^#?]*)'' @ replace_stars (index + 1) cs
      else a # replace_stars index (b # cs))"
| "replace_stars index cs = cs"

text \<open>
  The regexp package is not part of the repository. A compiled expression is modelled
  for the syntax that \<^verbatim>\<open>newRoute\<close> produces from patterns made of plain characters,
  \<^verbatim>\<open>:name\<close> and \<^verbatim>\<open>**\<close>: a sequence of literal characters, named groups
  \<^verbatim>\<open>(?P<name>[^/#?]+)\<close> and \<^verbatim>\<open>(?P<name>[^#?]*)\<close>, and \<^verbatim>\<open>\/?\<close>. One \<open>char\<close> is read as
  one character of the text, which it is for ASCII text.
\<close>

datatype node = Chr char | OneOrMore string | ZeroOrMore string | OptSlash

type_synonym regexp = "node list"

definition regexp_meta :: "char \<Rightarrow> bool" where
  "regexp_meta c = (c \<in> {CHR 0x5C, CHR ''.'', CHR ''+'', CHR ''*'', CHR ''?'', CHR ''('', CHR '')'',
     CHR ''|'', CHR ''['', CHR '']'', CHR ''{'', CHR ''}'', CHR ''^'', CHR ''$''})"

definition ascii :: "char \<Rightarrow> bool" where
  "ascii c = (of_char c < (128 :: nat))"

text \<open>A capture name is valid when it is not empty and made of letters, digits and \<^verbatim>\<open>_\<close>.\<close>

definition word_char :: "char \<Rightarrow> bool" where
  "word_char c = (let n = (of_char c :: nat) in
     c = CHR ''_'' \<or> (48 \<le> n \<and> n \<le> 57) \<or> (65 \<le> n \<and> n \<le> 90) \<or> (97 \<le> n \<and> n \<le> 122))"

definition isValidCaptureName :: "string \<Rightarrow> bool" where
  "isValidCaptureName name = (name \<noteq> [] \<and> list_all word_char name)"

fun strip_prefix :: "string \<Rightarrow> string \<Rightarrow> string option" where
  "strip_prefix [] s = Some s"
| "strip_prefix (p # ps) [] = None"
| "strip_prefix (p # ps) (c # cs) = (if p = c then strip_prefix ps cs else None)"

lemma strip_prefix_length: "strip_prefix p s = Some r \<Longrightarrow> length r \<le> length s"
  by (induction p s rule: strip_prefix.induct) (auto split: if_splits)

definition cons_node :: "node \<Rightarrow> error + regexp \<Rightarrow> error + regexp" where
  "cons_node n r = (case r of Inl e \<Rightarrow> Inl e | Inr ns \<Rightarrow> Inr (n # ns))"

text \<open>
  \<open>MustCompile\<close> reads the text of an expression from left to right. \<open>RegexpInvalid\<close> is
  the panic on a named group whose name is not valid or not closed; an expression that
  uses any other syntax is \<open>RegexpNotModelled\<close>.
\<close>

function MustCompile :: "string \<Rightarrow> error + regexp" where
  "MustCompile [] = Inr []"
| "MustCompile (c # cs) =
     (if c = CHR ''('' then
        (case strip_prefix ''?P<'' cs of
           None \<Rightarrow> Inl RegexpNotModelled
         | Some r1 \<Rightarrow>
             let name = takeWhile (\<lambda>x. x \<noteq> CHR ''>'') r1;
                 r2 = dropWhile (\<lambda>x. x \<noteq> CHR ''>'') r1
             in if r2 = [] \<or> \<not> isValidCaptureName name then Inl RegexpInvalid
                else (case strip_prefix ''>[^/#?]+)'' r2 of
                        Some r3 \<Rightarrow> cons_node (OneOrMore name) (MustCompile r3)
                      | None \<Rightarrow>
                         (case strip_prefix ''>[^#?]*)'' r2 of
                            Some r3 \<Rightarrow> cons_node (ZeroOrMore name) (MustCompile r3)
                          | None \<Rightarrow> Inl RegexpNotModelled)))
      else if c = CHR 0x5C then
        (case strip_prefix ''/?'' cs of
           Some r \<Rightarrow> cons_node OptSlash (MustCompile r)
         | None \<Rightarrow> Inl RegexpNotModelled)
      else if regexp_meta c \<or> \<not> ascii c then Inl RegexpNotModelled
      else cons_node (Chr c) (MustCompile cs))"
  by pat_completeness auto
termination
proof (relation "measure length", goal_cases)
  case 1
  then show ?case by simp
next
  case (2 c cs r1 name r2 r3)
  have "length r3 \<le> length r2" using 2 by (auto dest: strip_prefix_length)
  moreover have "length r2 \<le> length r1" using 2 by (simp add: length_dropWhile_le)
  moreover have "length r1 \<le> length cs" using 2 by (auto dest: strip_prefix_length)
  ultimately show ?case by simp
next
  case (3 c cs r1 name r2 r3)
  have "length r3 \<le> length r2" using 3 by (auto dest: strip_prefix_length)
  moreover have "length r2 \<le> length r1" using 3 by (simp add: length_dropWhile_le)
  moreover have "length r1 \<le> length cs" using 3 by (auto dest: strip_prefix_length)
  ultimately show ?case by simp
next
  case (4 c cs r)
  then show ?case by (auto dest: strip_prefix_length)
next
  case (5 c cs)
  then show ?case by simp
qed

definition seg_char :: "char \<Rightarrow> bool" where
  "seg_char c = (c \<notin> {CHR ''/'', CHR ''#'', CHR ''?''})"

definition any_char :: "char \<Rightarrow> bool" where
  "any_char c = (c \<notin> {CHR ''#'', CHR ''?''})"

text \<open>
  The package promises the match a backtracking search finds first, at the leftmost
  position where one exists. \<open>longest_first k s lo n\<close> is the choice of a greedy
  repetition: it hands the continuation \<open>k\<close> the first \<open>n\<close> characters of \<open>s\<close>, then
  \<open>n - 1\<close>, down to \<open>lo\<close>, and stops at the first success.
\<close>

fun longest_first :: "(string \<Rightarrow> string \<Rightarrow> 'a option) \<Rightarrow> string \<Rightarrow> nat \<Rightarrow> nat \<Rightarrow> 'a option" where
  "longest_first k s lo 0 = (if lo = 0 then k [] s else None)"
| "longest_first k s lo (Suc n) =
     (if Suc n < lo then None
      else case k (take (Suc n) s) (drop (Suc n) s) of
             Some r \<Rightarrow> Some r
           | None \<Rightarrow> longest_first k s lo n)"

definition push_capture :: "string \<Rightarrow> (string list \<times> string) option \<Rightarrow> (string list \<times> string) option" where
  "push_capture cap r = (case r of None \<Rightarrow> None | Some (caps, rest) \<Rightarrow> Some (cap # caps, rest))"

text \<open>
  \<open>match_here re s\<close>: the first match of \<open>re\<close> that starts at the head of \<open>s\<close>, as the
  texts of its groups and the rest of \<open>s\<close> behind the match.
\<close>

fun match_here :: "regexp \<Rightarrow> string \<Rightarrow> (string list \<times> string) option" where
  "match_here [] s = Some ([], s)"
| "match_here (Chr c # re) s =
     (case s of [] \<Rightarrow> None | x # xs \<Rightarrow> if x = c then match_here re xs else None)"
| "match_here (OneOrMore name # re) s =
     longest_first (\<lambda>cap rest. push_capture cap (match_here re rest)) s 1
       (length (takeWhile seg_char s))"
| "match_here (ZeroOrMore name # re) s =
     longest_first (\<lambda>cap rest. push_capture cap (match_here re rest)) s 0
       (length (takeWhile any_char s))"
| "match_here (OptSlash # re) s =
     (case (case s of [] \<Rightarrow> None | x # xs \<Rightarrow> if x = CHR ''/'' then match_here re xs else None) of
        Some r \<Rightarrow> Some r
      | None \<Rightarrow> match_here re s)"

text \<open>\<^verbatim>\<open>FindStringSubmatch\<close>: the whole match and the groups; the empty list is \<^verbatim>\<open>nil\<close>.\<close>

fun FindStringSubmatch :: "regexp \<Rightarrow> string \<Rightarrow> string list" where
  "FindStringSubmatch re s =
     (case match_here re s of
        Some (caps, rest) \<Rightarrow> take (length s - length rest) s # caps
      | None \<Rightarrow> (case s of [] \<Rightarrow> [] | x # xs \<Rightarrow> FindStringSubmatch re xs))"

declare FindStringSubmatch.simps [simp del]

fun SubexpNames_from :: "regexp \<Rightarrow> string list" where
  "SubexpNames_from [] = []"
| "SubexpNames_from (OneOrMore name # re) = name # SubexpNames_from re"
| "SubexpNames_from (ZeroOrMore name # re) = name # SubexpNames_from re"
| "SubexpNames_from (n # re) = SubexpNames_from re"

definition SubexpNames :: "regexp \<Rightarrow> string list" where
  "SubexpNames re = [] # SubexpNames_from re"

subsection \<open>Routes\<close>

record route =
  rmethod :: string
  regex :: regexp
  rhandlers :: "handler list"
  rpattern :: string
  rname :: string

record group =
  gpattern :: string
  ghandlers :: "handler list"

record router =
  routes :: "route list"
  notFounds :: "handler list"
  groups :: "group list"

text \<open>The default not-found handler is \<^verbatim>\<open>http.NotFound\<close>: status 404 and a short body.\<close>

definition http_NotFound :: handler where
  "http_NotFound = Callable True [DoWriteHeader 404, DoWrite ''404 page not found\<newline>''] []"

definition NewRouter :: router where
  "NewRouter = \<lparr>routes = [], notFounds = [http_NotFound], groups = []\<rparr>"

text \<open>
  \<open>newRoute\<close> takes the compiler of regular expressions as its first argument; the
  model of the package above is \<open>MustCompile\<close>.
\<close>

definition newRoute ::
  "(string \<Rightarrow> error + regexp) \<Rightarrow> string \<Rightarrow> string \<Rightarrow> handler list \<Rightarrow> error + route" where
  "newRoute compile method pattern handlers =
     (let pattern1 = ReplaceAllStringFunc (param_split pattern)
                       (\<lambda>m. ''(?P<'' @ drop 1 m @ ''>[^/#?]+)'');
          pattern2 = replace_stars 0 pattern1;
          pattern3 = pattern2 @ [CHR 0x5C] @ ''/?''
      in case compile pattern3 of
           Inl e \<Rightarrow> Inl e
         | Inr re \<Rightarrow> Inr \<lparr>rmethod = method, regex = re, rhandlers = handlers,
                          rpattern = pattern, rname = []\<rparr>)"

definition MatchMethod :: "route \<Rightarrow> string \<Rightarrow> bool" where
  "MatchMethod r method =
     (rmethod r = ''*'' \<or> method = rmethod r \<or> (method = ''HEAD'' \<and> rmethod r = ''GET''))"

text \<open>
  The loop over \<^verbatim>\<open>SubexpNames()\<close> that fills \<open>params\<close>; the two lists have the same
  length.
\<close>

fun bind_params :: "string list \<Rightarrow> string list \<Rightarrow> (string \<rightharpoonup> string) \<Rightarrow> (string \<rightharpoonup> string)" where
  "bind_params (name # names) (m # ms) params =
     bind_params names ms (if length name > 0 then params(name \<mapsto> m) else params)"
| "bind_params _ _ params = params"

text \<open>The result \<^verbatim>\<open>(false, nil)\<close> is \<open>(False, Map.empty)\<close>.\<close>

definition Match :: "route \<Rightarrow> string \<Rightarrow> string \<Rightarrow> bool \<times> (string \<rightharpoonup> string)" where
  "Match r method path =
     (if \<not> MatchMethod r method then (False, Map.empty)
      else let matches = FindStringSubmatch (regex r) path
           in if length matches > 0 \<and> matches ! 0 = path
              then (True, bind_params (SubexpNames (regex r)) matches Map.empty)
              else (False, Map.empty))"

fun Validate_handlers :: "handler list \<Rightarrow> error + unit" where
  "Validate_handlers [] = Inr ()"
| "Validate_handlers (h # hs) =
     (case validateHandler h of Inl e \<Rightarrow> Inl e | Inr u \<Rightarrow> Validate_handlers hs)"

definition Validate :: "route \<Rightarrow> error + unit" where
  "Validate r = Validate_handlers (rhandlers r)"

text \<open>
  The closure of \<^verbatim>\<open>URLWith\<close> counts the matches it has seen in \<open>i\<close>; \<open>url_pieces\<close> is
  the traversal with that counter. \<^verbatim>\<open>fmt.Sprintf("%v", val)\<close> of a string is the string.
\<close>

fun url_pieces :: "string list \<Rightarrow> nat \<Rightarrow> piece list \<Rightarrow> string" where
  "url_pieces args i [] = []"
| "url_pieces args i (Other c # ps) = c # url_pieces args i ps"
| "url_pieces args i (Matched m # ps) =
     (if i < length args then args ! i else m) @ url_pieces args (i + 1) ps"

definition URLWith :: "route \<Rightarrow> string list \<Rightarrow> string" where
  "URLWith r args =
     (if length args > 0 then url_pieces args 0 (param_split (rpattern r)) else rpattern r)"

definition Name :: "string \<Rightarrow> route \<Rightarrow> route" where
  "Name name r = r\<lparr>rname := name\<rparr>"

fun findRoute_in :: "route list \<Rightarrow> string \<Rightarrow> route option" where
  "findRoute_in [] name = None"
| "findRoute_in (r # rs) name = (if rname r = name then Some r else findRoute_in rs name)"

definition findRoute :: "router \<Rightarrow> string \<Rightarrow> route option" where
  "findRoute r name = findRoute_in (routes r) name"

text \<open>
  The arguments of \<^verbatim>\<open>URLFor\<close> are values of any type. The type switch tells an \<^verbatim>\<open>int\<close>, a
  \<^verbatim>\<open>string\<close>, \<^verbatim>\<open>nil\<close> and everything else apart.
\<close>

datatype param = IntParam int | StringParam string | NilParam | OtherParam

fun url_args :: "param list \<Rightarrow> string list \<Rightarrow> error + string list" where
  "url_args [] args = Inr args"
| "url_args (IntParam v # ps) args = url_args ps (args @ [FormatInt v])"
| "url_args (StringParam v # ps) args = url_args ps (args @ [v])"
| "url_args (NilParam # ps) args = url_args ps args"
| "url_args (OtherParam # ps) args = Inl BadURLForArgument"

definition URLFor :: "router \<Rightarrow> string \<Rightarrow> param list \<Rightarrow> error + string" where
  "URLFor r name params =
     (case findRoute r name of
        None \<Rightarrow> Inl RouteNotFound
      | Some route \<Rightarrow>
          (case url_args params [] of
             Inl e \<Rightarrow> Inl e
           | Inr args \<Rightarrow> Inr (URLWith route args)))"

definition hasMethod :: "string list \<Rightarrow> string \<Rightarrow> bool" where
  "hasMethod methods method = (method \<in> set methods)"

fun MethodsFor_from :: "route list \<Rightarrow> string \<Rightarrow> string list \<Rightarrow> string list" where
  "MethodsFor_from [] path methods = methods"
| "MethodsFor_from (r # rs) path methods =
     (let matches = FindStringSubmatch (regex r) path
      in MethodsFor_from rs path
           (if length matches > 0 \<and> matches ! 0 = path \<and> \<not> hasMethod methods (rmethod r)
            then methods @ [rmethod r] else methods))"

definition MethodsFor :: "router \<Rightarrow> string \<Rightarrow> string list" where
  "MethodsFor r path = MethodsFor_from (routes r) path []"


text \<open>
  The router is one object that every registration call changes in place. A
  registration call that panics leaves the router as it was at the panic, and a caller
  that recovers sees that state: the result of a registration is the new router (\<open>Inr\<close>)
  or the panic together with the router it leaves behind (\<open>Inl\<close>).

  \<open>addRoute\<close> returns the router with the new route at the end of its table; the route
  it returns in the source is that last element.
\<close>

fun group_prefix :: "group list \<Rightarrow> string \<Rightarrow> handler list \<Rightarrow> string \<times> handler list" where
  "group_prefix [] groupPattern h = (groupPattern, h)"
| "group_prefix (g # gs) groupPattern h = group_prefix gs (groupPattern @ gpattern g) (h @ ghandlers g)"

definition addRoute ::
  "(string \<Rightarrow> error + regexp) \<Rightarrow> string \<Rightarrow> string \<Rightarrow> handler list \<Rightarrow> router
     \<Rightarrow> error \<times> router + router" where
  "addRoute compile method pattern handlers r =
     (let (pattern1, handlers1) =
            (if length (groups r) > 0
             then (let (groupPattern, h) = group_prefix (groups r) [] []
                   in (groupPattern @ pattern, h @ handlers))
             else (pattern, handlers))
      in case newRoute compile method pattern1 handlers1 of
           Inl e \<Rightarrow> Inl (e, r)
         | Inr route \<Rightarrow>
             (case Validate route of
                Inl e \<Rightarrow> Inl (e, r)
              | Inr u \<Rightarrow> Inr (r\<lparr>routes := routes r @ [route]\<rparr>)))"

definition NotFound :: "handler list \<Rightarrow> router \<Rightarrow> router" where
  "NotFound handler r = r\<lparr>notFounds := handler\<rparr>"

definition name_last :: "string \<Rightarrow> router \<Rightarrow> router" where
  "name_last name r =
     (if routes r = [] then r
      else r\<lparr>routes := butlast (routes r) @ [Name name (last (routes r))]\<rparr>)"

text \<open>
  The function given to \<^verbatim>\<open>Group\<close> is modelled by the registrations it makes, in order:
  a route (\<open>Add method pattern handlers\<close> for \<^verbatim>\<open>Get\<close>, \<^verbatim>\<open>Post\<close>, ..., \<^verbatim>\<open>Any\<close>, which pass
  their method to \<^verbatim>\<open>addRoute\<close>), a route that is named at once
  (\<^verbatim>\<open>r.Get(...).Name(name)\<close>), a nested group, new not-found handlers, or a block of
  registrations inside a function that recovers from a panic
  (\<^verbatim>\<open>func() { defer func() { recover() }(); ... }()\<close>). A panic ends the function that
  is running: the statements behind it, the pop of \<^verbatim>\<open>Group\<close> among them, do not run,
  until a recovering block is reached, behind which the registrations go on.
\<close>

datatype registration =
    Add string string "handler list"
  | AddNamed string string "handler list" string
  | InGroup string "registration list" "handler list"
  | Recovered "registration list"
  | SetNotFound "handler list"

fun register :: "(string \<Rightarrow> error + regexp) \<Rightarrow> registration \<Rightarrow> router \<Rightarrow> error \<times> router + router"
  and register_all :: "(string \<Rightarrow> error + regexp) \<Rightarrow> registration list \<Rightarrow> router
                         \<Rightarrow> error \<times> router + router"
  and Group :: "(string \<Rightarrow> error + regexp) \<Rightarrow> string \<Rightarrow> registration list \<Rightarrow> handler list
                  \<Rightarrow> router \<Rightarrow> error \<times> router + router"
where
  "register compile (Add method pattern h) r = addRoute compile method pattern h r"
| "register compile (AddNamed method pattern h name) r =
     (case addRoute compile method pattern h r of
        Inl e \<Rightarrow> Inl e
      | Inr r1 \<Rightarrow> Inr (name_last name r1))"
| "register compile (InGroup pattern fn h) r = Group compile pattern fn h r"
| "register compile (Recovered fn) r =
     (case register_all compile fn r of
        Inl (e, r1) \<Rightarrow> Inr r1
      | Inr r1 \<Rightarrow> Inr r1)"
| "register compile (SetNotFound h) r = Inr (NotFound h r)"
| "register_all compile [] r = Inr r"
| "register_all compile (x # xs) r =
     (case register compile x r of
        Inl e \<Rightarrow> Inl e
      | Inr r1 \<Rightarrow> register_all compile xs r1)"
| "Group compile pattern fn h r =
     (case register_all compile fn (r\<lparr>groups := groups r @ [\<lparr>gpattern = pattern, ghandlers = h\<rparr>]\<rparr>) of
        Inl e \<Rightarrow> Inl e
      | Inr r1 \<Rightarrow>
          if length (groups r1) = 0 then Inl (SliceBoundsOutOfRange, r1)
          else Inr (r1\<lparr>groups := take (length (groups r1) - 1) (groups r1)\<rparr>))"

subsection \<open>Reverse routing\<close>

text \<open>
  The substitution in the words of the specification: the tokens are replaced from left
  to right by the values in order, and a token for which no value is left stays as it
  is.
\<close>

fun substitute :: "piece list \<Rightarrow> string list \<Rightarrow> string" where
  "substitute [] args = []"
| "substitute (Other c # ps) args = c # substitute ps args"
| "substitute (Matched m # ps) [] = m @ substitute ps []"
| "substitute (Matched m # ps) (a # args) = a @ substitute ps args"

text \<open>The string forms of the arguments that \<^verbatim>\<open>URLFor\<close> accepts; \<^verbatim>\<open>nil\<close> gives none.\<close>

fun coerced :: "param list \<Rightarrow> string list" where
  "coerced [] = []"
| "coerced (IntParam v # ps) = FormatInt v # coerced ps"
| "coerced (StringParam v # ps) = v # coerced ps"
| "coerced (p # ps) = coerced ps"

definition home_router :: router where
  "home_router =
     \<lparr>routes = [\<lparr>rmethod = ''GET'',
                 regex = [Chr CHR ''/'', Chr CHR ''u'', Chr CHR ''s'', Chr CHR ''e'', Chr CHR ''r'',
                          Chr CHR ''/'', OneOrMore ''id'', OptSlash],
                 rhandlers = [], rpattern = ''/user/:id'', rname = ''home''\<rparr>],
      notFounds = [http_NotFound], groups = []\<rparr>"

lemma home_router_registered:
  "register MustCompile (AddNamed ''GET'' ''/user/:id'' [] ''home'') NewRouter = Inr home_router"
  by code_simp

lemma url_pieces_substitute: "url_pieces args i ps = substitute ps (drop i args)"
proof (induction ps arbitrary: i)
  case Nil
  then show ?case by simp
next
  case (Cons p ps)
  show ?case
  proof (cases p)
    case (Other c)
    with Cons show ?thesis by simp
  next
    case (Matched m)
    show ?thesis
    proof (cases "i < length args")
      case True
      then have "drop i args = args ! i # drop (i + 1) args"
        by (simp add: Cons_nth_drop_Suc)
      with Cons Matched True show ?thesis by simp
    next
      case False
      with Cons Matched show ?thesis by simp
    qed
  qed
qed

lemma URLWith_substitute:
  "URLWith r args = (if args = [] then rpattern r else substitute (param_split (rpattern r)) args)"
  by (simp add: URLWith_def url_pieces_substitute)

lemma url_args_coerced:
  "url_args ps acc = (if OtherParam \<in> set ps then Inl BadURLForArgument else Inr (acc @ coerced ps))"
  by (induction ps acc rule: url_args.induct) auto

lemma findRoute_in_None: "findRoute_in rs name = None \<longleftrightarrow> name \<notin> rname ` set rs"
  by (induction rs) auto

lemma findRoute_in_Some:
  "findRoute_in rs name = Some r \<longleftrightarrow>
     (\<exists>i < length rs. rs ! i = r \<and> rname r = name \<and> (\<forall>j < i. rname (rs ! j) \<noteq> name))"
proof (induction rs)
  case Nil
  then show ?case by simp
next
  case (Cons x xs)
  show ?case
  proof (cases "rname x = name")
    case True
    then show ?thesis by (auto intro: exI [of _ 0]) (metis nth_Cons_0 not_gr_zero)
  next
    case False
    have "(\<exists>i<length (x # xs). (x # xs) ! i = r \<and> rname r = name \<and> (\<forall>j<i. rname ((x # xs) ! j) \<noteq> name))
       \<longleftrightarrow> (\<exists>i<length xs. xs ! i = r \<and> rname r = name \<and> (\<forall>j<i. rname (xs ! j) \<noteq> name))"
      (is "?L \<longleftrightarrow> ?R")
    proof
      assume ?L
      then obtain i where i: "i < length (x # xs)" "(x # xs) ! i = r" "rname r = name"
        "\<forall>j<i. rname ((x # xs) ! j) \<noteq> name" by blast
      with False obtain k where k: "i = Suc k" by (cases i) auto
      with i have "k < length xs" "xs ! k = r" by auto
      moreover have "\<forall>j<k. rname (xs ! j) \<noteq> name"
      proof (intro allI impI)
        fix j assume "j < k"
        then have "Suc j < i" using k by simp
        with i(4) have "rname ((x # xs) ! Suc j) \<noteq> name" by blast
        then show "rname (xs ! j) \<noteq> name" by simp
      qed
      ultimately show ?R using i(3) by blast
    next
      assume ?R
      then obtain i where i: "i < length xs" "xs ! i = r" "rname r = name"
        "\<forall>j<i. rname (xs ! j) \<noteq> name" by blast
      have "\<forall>j<Suc i. rname ((x # xs) ! j) \<noteq> name"
      proof (intro allI impI)
        fix j assume "j < Suc i"
        then show "rname ((x # xs) ! j) \<noteq> name" using False i(4) by (cases j) auto
      qed
      with i show ?L by (intro exI [of _ "Suc i"]) auto
    qed
    with False Cons show ?thesis by simp
  qed
qed

text \<open>
  C8, as stated: every argument that is neither integer-like nor string-like is a fatal
  usage error. The type switch lets \<^verbatim>\<open>nil\<close> pass: it is skipped, and the call returns.
\<close>

theorem URLFor_nil_counterexample:
  "URLFor home_router ''home'' [NilParam] = Inr ''/user/:id''"
  by code_simp

text \<open>
  C8, amended: \<^verbatim>\<open>URLFor\<close> on a name that no route of the table bears fails with "route
  not found"; on the first route that bears the name, each argument is turned into its
  string form, an \<^verbatim>\<open>int\<close> in decimal and a \<^verbatim>\<open>string\<close> as it is, \<^verbatim>\<open>nil\<close> is skipped, and
  any other argument is a fatal usage error; the \<^verbatim>\<open>:name\<close> tokens of the pattern are
  then replaced from left to right by the strings in order, tokens without a string
  staying as they are (with no string at all the pattern is returned unchanged). So the
  route "home" with pattern \<^verbatim>\<open>/user/:id\<close> and the argument "7" gives \<^verbatim>\<open>/user/7\<close>.
\<close>

theorem URLFor_reverse:
  "(name \<notin> rname ` set (routes r) \<longrightarrow> URLFor r name params = Inl RouteNotFound)
   \<and> (name \<in> rname ` set (routes r) \<and> OtherParam \<in> set params
        \<longrightarrow> URLFor r name params = Inl BadURLForArgument)
   \<and> (i < length (routes r) \<and> rname (routes r ! i) = name
        \<and> (\<forall>j < i. rname (routes r ! j) \<noteq> name) \<and> OtherParam \<notin> set params
        \<longrightarrow> URLFor r name params = Inr (URLWith (routes r ! i) (coerced params)))
   \<and> URLWith rt args = (if args = [] then rpattern rt else substitute (param_split (rpattern rt)) args)
   \<and> coerced (IntParam n # ps) = FormatInt n # coerced ps
   \<and> coerced (StringParam s # ps) = s # coerced ps
   \<and> coerced (NilParam # ps) = coerced ps"
proof -
  have a: "name \<notin> rname ` set (routes r) \<longrightarrow> URLFor r name params = Inl RouteNotFound"
    using findRoute_in_None [of "routes r" name] by (auto simp add: URLFor_def findRoute_def)
  have b: "name \<in> rname ` set (routes r) \<and> OtherParam \<in> set params
        \<longrightarrow> URLFor r name params = Inl BadURLForArgument"
  proof (intro impI, elim conjE)
    assume "name \<in> rname ` set (routes r)" and o: "OtherParam \<in> set params"
    then obtain rt where "findRoute r name = Some rt"
      using findRoute_in_None [of "routes r" name] by (auto simp: findRoute_def)
    with o show "URLFor r name params = Inl BadURLForArgument"
      by (simp add: URLFor_def url_args_coerced)
  qed
  have c: "i < length (routes r) \<and> rname (routes r ! i) = name
        \<and> (\<forall>j < i. rname (routes r ! j) \<noteq> name) \<and> OtherParam \<notin> set params
        \<longrightarrow> URLFor r name params = Inr (URLWith (routes r ! i) (coerced params))"
  proof (intro impI, elim conjE)
    assume i: "i < length (routes r)" "rname (routes r ! i) = name"
      "\<forall>j < i. rname (routes r ! j) \<noteq> name" and o: "OtherParam \<notin> set params"
    from i have "findRoute r name = Some (routes r ! i)"
      unfolding findRoute_def findRoute_in_Some by blast
    with o show "URLFor r name params = Inr (URLWith (routes r ! i) (coerced params))"
      by (simp add: URLFor_def url_args_coerced)
  qed
  show ?thesis using a b c by (simp add: URLWith_substitute)
qed

theorem URLFor_reverse_witness:
  "URLFor home_router ''home'' [StringParam ''7''] = Inr ''/user/7''
   \<and> URLFor home_router ''home'' [IntParam (- 12), StringParam ''x''] = Inr ''/user/-12''
   \<and> URLFor home_router ''away'' [StringParam ''7''] = Inl RouteNotFound
   \<and> URLFor home_router ''home'' [StringParam ''7'', OtherParam] = Inl BadURLForArgument"
proof -
  have s: "URLWith (routes home_router ! 0) [''7''] = ''/user/7''"
     "URLWith (routes home_router ! 0) [FormatInt (- 12), ''x''] = ''/user/-12''"
    by code_simp+
  have n: "rname ` set (routes home_router) = {''home''}"
    by (simp add: home_router_def)
  show ?thesis
    using URLFor_reverse [of "''home''" home_router "[StringParam ''7'']" 0]
      URLFor_reverse [of "''home''" home_router "[IntParam (- 12), StringParam ''x'']" 0]
      URLFor_reverse [of "''away''" home_router "[StringParam ''7'']"]
      URLFor_reverse [of "''home''" home_router "[StringParam ''7'', OtherParam]"]
      s n
    by (simp add: home_router_def)
qed


subsection \<open>Grouping\<close>

text \<open>
  What a registration declares, in the words of the specification: a route declared
  under the prefix \<open>p\<close> and the middleware \<open>ms\<close> of the active groups gets the pattern
  \<open>p\<close> followed by its own and the handlers \<open>ms\<close> followed by its own; a group adds its
  prefix and middleware behind those of the groups around it, for the registrations
  inside it only. A declaration is method, pattern, handlers and name, and the route
  built from it is the one \<open>newRoute\<close> makes of that method, that pattern and those
  handlers, so compiled from the whole pattern, and then named.
\<close>

type_synonym route_decl = "string \<times> string \<times> handler list \<times> string"

fun declared :: "string \<Rightarrow> handler list \<Rightarrow> registration \<Rightarrow> route_decl list"
  and declared_all :: "string \<Rightarrow> handler list \<Rightarrow> registration list \<Rightarrow> route_decl list"
where
  "declared p ms (Add method pattern h) = [(method, p @ pattern, ms @ h, [])]"
| "declared p ms (AddNamed method pattern h name) = [(method, p @ pattern, ms @ h, name)]"
| "declared p ms (InGroup pattern fn h) = declared_all (p @ pattern) (ms @ h) fn"
| "declared p ms (Recovered fn) = declared_all p ms fn"
| "declared p ms (SetNotFound h) = []"
| "declared_all p ms [] = []"
| "declared_all p ms (x # xs) = declared p ms x @ declared_all p ms xs"

fun built :: "(string \<Rightarrow> error + regexp) \<Rightarrow> route_decl \<Rightarrow> route \<Rightarrow> bool" where
  "built compile (method, pattern, h, name) rt =
     (case newRoute compile method pattern h of
        Inl e \<Rightarrow> False
      | Inr rt0 \<Rightarrow> rt = Name name rt0)"

definition active_prefix :: "router \<Rightarrow> string" where
  "active_prefix r = concat (map gpattern (groups r))"

definition active_middleware :: "router \<Rightarrow> handler list" where
  "active_middleware r = concat (map ghandlers (groups r))"

definition push_group :: "string \<Rightarrow> handler list \<Rightarrow> router \<Rightarrow> router" where
  "push_group pattern h r = r\<lparr>groups := groups r @ [\<lparr>gpattern = pattern, ghandlers = h\<rparr>]\<rparr>"

text \<open>
  \<open>panic_free compile x r\<close>: no panic is raised while the registration \<open>x\<close> runs on the
  router \<open>r\<close>, inside a recovering block or outside.
\<close>

fun panic_free :: "(string \<Rightarrow> error + regexp) \<Rightarrow> registration \<Rightarrow> router \<Rightarrow> bool"
  and panic_free_all :: "(string \<Rightarrow> error + regexp) \<Rightarrow> registration list \<Rightarrow> router \<Rightarrow> bool"
where
  "panic_free compile (Add method pattern h) r = (\<not> isl (addRoute compile method pattern h r))"
| "panic_free compile (AddNamed method pattern h name) r =
     (\<not> isl (addRoute compile method pattern h r))"
| "panic_free compile (InGroup pattern fn h) r = panic_free_all compile fn (push_group pattern h r)"
| "panic_free compile (Recovered fn) r = panic_free_all compile fn r"
| "panic_free compile (SetNotFound h) r = True"
| "panic_free_all compile [] r = True"
| "panic_free_all compile (x # xs) r =
     (panic_free compile x r \<and>
      (case register compile x r of
         Inl e \<Rightarrow> False
       | Inr r1 \<Rightarrow> panic_free_all compile xs r1))"

lemma group_prefix_concat:
  "group_prefix gs p h = (p @ concat (map gpattern gs), h @ concat (map ghandlers gs))"
  by (induction gs arbitrary: p h) simp_all

lemma addRoute_result:
  assumes "addRoute compile method pattern h r = Inr r'"
  shows "\<exists>rt. r' = r\<lparr>routes := routes r @ [rt]\<rparr>
           \<and> built compile (method, active_prefix r @ pattern, active_middleware r @ h, []) rt"
proof (cases "groups r = []")
  case True
  with assms show ?thesis
    by (auto simp: addRoute_def active_prefix_def active_middleware_def Name_def newRoute_def
        Let_def split: sum.splits)
next
  case False
  with assms show ?thesis
    by (auto simp: addRoute_def group_prefix_concat active_prefix_def active_middleware_def
        Name_def newRoute_def Let_def split: sum.splits)
qed

lemma built_Name:
  "built compile (m, p, h, []) rt \<Longrightarrow> built compile (m, p, h, name) (Name name rt)"
  by (auto simp: Name_def split: sum.splits)

text \<open>
  The three functions, for a run without a panic: the run returns, the group stack is
  the one before, and the routes added are those declared, in order.
\<close>

definition registers ::
  "(string \<Rightarrow> error + regexp) \<Rightarrow> error \<times> router + router \<Rightarrow> router \<Rightarrow> route_decl list \<Rightarrow> bool" where
  "registers compile res r decls =
     (\<exists>r' new. res = Inr r' \<and> groups r' = groups r \<and> routes r' = routes r @ new
        \<and> list_all2 (built compile) decls new)"

lemma registers_seq:
  assumes "registers compile (Inr r1) r d1" "registers compile res r1 d2"
  shows "registers compile res r (d1 @ d2)"
proof -
  from assms(1) obtain new1 where a: "groups r1 = groups r" "routes r1 = routes r @ new1"
    "list_all2 (built compile) d1 new1"
    by (auto simp: registers_def)
  from assms(2) obtain r' new2 where b: "res = Inr r'" "groups r' = groups r1"
    "routes r' = routes r1 @ new2" "list_all2 (built compile) d2 new2"
    by (auto simp: registers_def)
  have "list_all2 (built compile) (d1 @ d2) (new1 @ new2)"
    using a(3) b(4) by (rule list_all2_appendI)
  with a b show ?thesis by (auto simp: registers_def)
qed

lemma register_declares:
  "panic_free compile x r \<longrightarrow>
     registers compile (register compile x r) r
       (declared (active_prefix r) (active_middleware r) x)"
  "panic_free_all compile xs r \<longrightarrow>
     registers compile (register_all compile xs r) r
       (declared_all (active_prefix r) (active_middleware r) xs)"
  "panic_free_all compile xs (push_group pattern h r) \<longrightarrow>
     registers compile (Group compile pattern xs h r) r
       (declared_all (active_prefix r @ pattern) (active_middleware r @ h) xs)"
proof (induction compile x r and compile xs r and compile pattern xs h r
    rule: register_register_all_Group.induct)
  case (1 compile meth pattern h r)
  show ?case
  proof
    assume "panic_free compile (Add meth pattern h) r"
    then obtain r' where r': "addRoute compile meth pattern h r = Inr r'"
      by (cases "addRoute compile meth pattern h r") auto
    from addRoute_result [OF r'] r' show "registers compile (register compile (Add meth pattern h) r) r
       (declared (active_prefix r) (active_middleware r) (Add meth pattern h))"
      by (auto simp: registers_def)
  qed
next
  case (2 compile meth pattern h name r)
  show ?case
  proof
    assume "panic_free compile (AddNamed meth pattern h name) r"
    then obtain r1 where r1: "addRoute compile meth pattern h r = Inr r1"
      by (cases "addRoute compile meth pattern h r") auto
    from addRoute_result [OF r1] obtain rt where
      rt: "r1 = r\<lparr>routes := routes r @ [rt]\<rparr>"
        "built compile (meth, active_prefix r @ pattern, active_middleware r @ h, []) rt"
      by blast
    have "register compile (AddNamed meth pattern h name) r = Inr (name_last name r1)"
      using r1 by simp
    moreover have "name_last name r1 = r\<lparr>routes := routes r @ [Name name rt]\<rparr>"
      using rt(1) by (simp add: name_last_def)
    ultimately show "registers compile (register compile (AddNamed meth pattern h name) r) r
       (declared (active_prefix r) (active_middleware r) (AddNamed meth pattern h name))"
      using built_Name [OF rt(2)] by (simp add: registers_def)
  qed
next
  case (3 compile pattern fn h r)
  then show ?case by simp
next
  case (4 compile fn r)
  show ?case
  proof
    assume "panic_free compile (Recovered fn) r"
    then have "registers compile (register_all compile fn r) r
       (declared_all (active_prefix r) (active_middleware r) fn)"
      using 4 by simp
    then show "registers compile (register compile (Recovered fn) r) r
       (declared (active_prefix r) (active_middleware r) (Recovered fn))"
      by (auto simp: registers_def)
  qed
next
  case (5 compile h r)
  then show ?case by (simp add: registers_def NotFound_def)
next
  case (6 compile r)
  then show ?case by (simp add: registers_def)
next
  case (7 compile x xs r)
  show ?case
  proof
    assume a: "panic_free_all compile (x # xs) r"
    then have px: "panic_free compile x r" by simp
    with "7.IH"(1) have s1: "registers compile (register compile x r) r
       (declared (active_prefix r) (active_middleware r) x)"
      by simp
    then obtain r1 where r1: "register compile x r = Inr r1" "groups r1 = groups r"
      by (auto simp: registers_def)
    with a have "panic_free_all compile xs r1" by simp
    with "7.IH"(2) [OF r1(1)] have s2: "registers compile (register_all compile xs r1) r1
       (declared_all (active_prefix r1) (active_middleware r1) xs)"
      by simp
    have e: "active_prefix r1 = active_prefix r" "active_middleware r1 = active_middleware r"
      using r1(2) by (simp_all add: active_prefix_def active_middleware_def)
    from s1 r1(1) have s1': "registers compile (Inr r1) r
       (declared (active_prefix r) (active_middleware r) x)"
      by simp
    from registers_seq [OF s1' s2] r1(1) e
    show "registers compile (register_all compile (x # xs) r) r
       (declared_all (active_prefix r) (active_middleware r) (x # xs))"
      by simp
  qed
next
  case (8 compile pattern fn h r)
  let ?r0 = "r\<lparr>groups := groups r @ [\<lparr>gpattern = pattern, ghandlers = h\<rparr>]\<rparr>"
  show ?case
  proof
    assume "panic_free_all compile fn (push_group pattern h r)"
    then have "panic_free_all compile fn ?r0" by (simp add: push_group_def)
    with "8.IH" have "registers compile (register_all compile fn ?r0) ?r0
       (declared_all (active_prefix ?r0) (active_middleware ?r0) fn)"
      by simp
    then obtain r1 new where r1: "register_all compile fn ?r0 = Inr r1"
      "groups r1 = groups r @ [\<lparr>gpattern = pattern, ghandlers = h\<rparr>]"
      "routes r1 = routes r @ new"
      "list_all2 (built compile)
         (declared_all (active_prefix r @ pattern) (active_middleware r @ h) fn) new"
      by (auto simp: registers_def active_prefix_def active_middleware_def)
    then show "registers compile (Group compile pattern fn h r) r
       (declared_all (active_prefix r @ pattern) (active_middleware r @ h) fn)"
      by (simp add: registers_def)
  qed
qed

definition recovering_example :: "registration list" where
  "recovering_example =
     [InGroup ''/a'' [Recovered [InGroup ''/b'' [Add ''GET'' ''/x'' [NotCallable]] []]] [],
      Add ''GET'' ''/y'' []]"

text \<open>
  C9, as stated: after a \<^verbatim>\<open>Group\<close> call returns, the group stack is restored to its prior
  state, so that registrations behind it get none of its prefix. \<^verbatim>\<open>Group\<close> pops the
  stack behind the call of its function, and a panic in the function skips the pop.
  Here the function of group \<^verbatim>\<open>/a\<close> recovers from the panic of a nested group \<^verbatim>\<open>/b\<close>
  (whose route has a handler that is no function): the entry of \<^verbatim>\<open>/b\<close> stays on the
  stack, the pop of \<^verbatim>\<open>/a\<close> removes it instead of its own, and the route \<^verbatim>\<open>/y\<close> registered
  behind the group gets the prefix \<^verbatim>\<open>/a\<close>.
\<close>

theorem Group_not_restored_counterexample:
  "\<not> isl (register_all MustCompile recovering_example NewRouter)
   \<and> map gpattern (groups (projr (register_all MustCompile recovering_example NewRouter)))
       = [''/a'']
   \<and> map rpattern (routes (projr (register_all MustCompile recovering_example NewRouter)))
       = [''/a/y'']"
  by code_simp

text \<open>
  C9, amended: a route registered inside nested \<^verbatim>\<open>Group\<close> calls gets as its pattern the
  prefixes of all active groups, outermost first, followed by its own pattern, and as
  its handlers the middleware of all active groups in the same order followed by its
  own, and it is compiled from that whole pattern; after a \<^verbatim>\<open>Group\<close> call in whose
  registration function no panic was raised returns, the group stack is restored to
  its prior state, however the function nests further groups, so that the registrations
  behind it get the prefix and middleware that were active before it and nothing of the
  group.
\<close>

theorem Group_composes_and_restores:
  "(addRoute compile method pattern h r = Inr r' \<longrightarrow>
      groups r' = groups r
      \<and> (\<exists>rt. routes r' = routes r @ [rt]
            \<and> built compile (method, concat (map gpattern (groups r)) @ pattern,
                 concat (map ghandlers (groups r)) @ h, []) rt))
   \<and> (panic_free_all compile fn (push_group pattern h r) \<longrightarrow>
      (\<exists>r1 new. Group compile pattern fn h r = Inr r1
         \<and> groups r1 = groups r
         \<and> routes r1 = routes r @ new
         \<and> list_all2 (built compile)
              (declared_all (concat (map gpattern (groups r)) @ pattern)
                 (concat (map ghandlers (groups r)) @ h) fn) new))
   \<and> (panic_free_all compile xs r \<longrightarrow>
      (\<exists>r1 new. register_all compile xs r = Inr r1
         \<and> groups r1 = groups r
         \<and> routes r1 = routes r @ new
         \<and> list_all2 (built compile)
              (declared_all (concat (map gpattern (groups r)))
                 (concat (map ghandlers (groups r))) xs) new))"
proof -
  have a: "addRoute compile method pattern h r = Inr r' \<longrightarrow>
      groups r' = groups r
      \<and> (\<exists>rt. routes r' = routes r @ [rt]
            \<and> built compile (method, concat (map gpattern (groups r)) @ pattern,
                 concat (map ghandlers (groups r)) @ h, []) rt)"
    using addRoute_result [of compile "method" pattern h r r']
    by (auto simp: active_prefix_def active_middleware_def)
  show ?thesis
    using a register_declares(2) [of compile xs r]
      register_declares(3) [of compile fn pattern h r]
    unfolding registers_def active_prefix_def active_middleware_def
    by blast
qed

definition nested_example :: "registration list" where
  "nested_example =
     [InGroup ''/api''
        [Add ''GET'' ''/a'' [Callable True [DoWrite ''a''] []],
         InGroup ''/v1'' [AddNamed ''POST'' ''/b/:id'' [Callable True [] [StringVal ''string'' ''b'']] ''b'']
           [Callable True [DoBefore 2, DoNext] []],
         Recovered [Add ''PUT'' ''/c'' []]]
        [Callable True [DoBefore 1, DoNext] []],
      Add ''*'' ''/d'' []]"

definition nested_routes :: "route list" where
  "nested_routes =
     [\<lparr>rmethod = ''GET'', regex = map Chr ''/api/a'' @ [OptSlash],
       rhandlers = [Callable True [DoBefore 1, DoNext] [], Callable True [DoWrite ''a''] []],
       rpattern = ''/api/a'', rname = []\<rparr>,
      \<lparr>rmethod = ''POST'', regex = map Chr ''/api/v1/b/'' @ [OneOrMore ''id'', OptSlash],
       rhandlers = [Callable True [DoBefore 1, DoNext] [], Callable True [DoBefore 2, DoNext] [],
                    Callable True [] [StringVal ''string'' ''b'']],
       rpattern = ''/api/v1/b/:id'', rname = ''b''\<rparr>,
      \<lparr>rmethod = ''PUT'', regex = map Chr ''/api/c'' @ [OptSlash],
       rhandlers = [Callable True [DoBefore 1, DoNext] []],
       rpattern = ''/api/c'', rname = []\<rparr>,
      \<lparr>rmethod = ''*'', regex = map Chr ''/d'' @ [OptSlash], rhandlers = [],
       rpattern = ''/d'', rname = []\<rparr>]"

theorem Group_composes_and_restores_witness:
  "panic_free_all MustCompile nested_example NewRouter
   \<and> register_all MustCompile nested_example NewRouter
       = Inr \<lparr>routes = nested_routes, notFounds = [http_NotFound], groups = []\<rparr>
   \<and> list_all2 (built MustCompile)
       [(''GET'', ''/api/a'', [Callable True [DoBefore 1, DoNext] [], Callable True [DoWrite ''a''] []], []),
        (''POST'', ''/api/v1/b/:id'',
           [Callable True [DoBefore 1, DoNext] [], Callable True [DoBefore 2, DoNext] [],
            Callable True [] [StringVal ''string'' ''b'']], ''b''),
        (''PUT'', ''/api/c'', [Callable True [DoBefore 1, DoNext] []], []),
        (''*'', ''/d'', [], [])]
       nested_routes
   \<and> fst (Match (nested_routes ! 1) ''POST'' ''/api/v1/b/7'')
   \<and> \<not> fst (Match (nested_routes ! 1) ''POST'' ''/b/7'')"
proof -
  have ok: "panic_free_all MustCompile nested_example NewRouter"
    by code_simp
  have e: "register_all MustCompile nested_example NewRouter
       = Inr \<lparr>routes = nested_routes, notFounds = [http_NotFound], groups = []\<rparr>"
    by code_simp
  have m: "fst (Match (nested_routes ! 1) ''POST'' ''/api/v1/b/7'')"
    "\<not> fst (Match (nested_routes ! 1) ''POST'' ''/b/7'')"
    by code_simp+
  show ?thesis
    using ok e m Group_composes_and_restores [where compile = MustCompile and r = NewRouter
        and xs = nested_example, THEN conjunct2, THEN conjunct2]
    by (simp add: NewRouter_def nested_example_def)
qed

subsection \<open>Matching\<close>

text \<open>
  The texts a node stands for, in the words of the specification: a literal character
  is itself; a named parameter is one or more characters other than \<^verbatim>\<open>/ # ?\<close>; a double
  wildcard is any number of characters other than \<^verbatim>\<open># ?\<close>; the slash at the end may be
  there or not. \<open>splits re s ws rest\<close>: the texts \<open>ws\<close>, one for each node of \<open>re\<close> and in
  the class of its node, followed by \<open>rest\<close>, make up \<open>s\<close>.
\<close>

fun node_accepts :: "node \<Rightarrow> string \<Rightarrow> bool" where
  "node_accepts (Chr c) w = (w = [c])"
| "node_accepts (OneOrMore name) w = (w \<noteq> [] \<and> list_all seg_char w)"
| "node_accepts (ZeroOrMore name) w = list_all any_char w"
| "node_accepts OptSlash w = (w = [] \<or> w = ''/'')"

definition splits :: "regexp \<Rightarrow> string \<Rightarrow> string list \<Rightarrow> string \<Rightarrow> bool" where
  "splits re s ws rest = (list_all2 node_accepts re ws \<and> concat ws @ rest = s)"











lemma splits_Nil [simp]: "splits [] s ws rest \<longleftrightarrow> ws = [] \<and> rest = s"
  by (auto simp: splits_def)



























subsection \<open>Patterns\<close>




























section \<open>The pipelines (martini.go, router.go)\<close>

text \<open>
  A request carries its method and the path of its URL. The state of one request is what
  the two pipelines share through the injector: the request, the response wrapper, the
  parameters mapped by the router, and the \<^verbatim>\<open>ReturnHandler\<close> service (the one that
  \<^verbatim>\<open>New\<close> maps is \<open>defaultReturnHandler\<close>; a service that works on the response writer
  only is modelled). \<open>trace\<close> is not state of the program: it records, in order, each
  invocation made by a \<^verbatim>\<open>run\<close> loop (with the value of \<^verbatim>\<open>Written()\<close> at that moment),
  each call of \<^verbatim>\<open>Next\<close>, each return of a handler with its values, and each call of the
  \<^verbatim>\<open>ReturnHandler\<close>.
\<close>

record request =
  Method :: string
  Path :: string

datatype level = InContext | InRoute

datatype tevent =
    Invoked level nat bool
  | NextCalled level
  | Returned level nat "rvalue list"
  | ReturnHandled "rvalue list"

record reqstate =
  req :: request
  rw :: responseWriter
  params :: "(string \<rightharpoonup> string) option"
  returnHandler :: "responseWriter \<Rightarrow> rvalue list \<Rightarrow> responseWriter"
  trace :: "tevent list"

fun do_action :: "action \<Rightarrow> responseWriter \<Rightarrow> responseWriter" where
  "do_action (DoWriteHeader s) w = WriteHeader s w"
| "do_action (DoWrite b) w = snd (Write b w)"
| "do_action (DoBefore h) w = Before h w"
| "do_action a w = w"

definition emit :: "tevent \<Rightarrow> reqstate \<Rightarrow> reqstate" where
  "emit e st = st\<lparr>trace := trace st @ [e]\<rparr>"

definition handleReturn :: "rvalue list \<Rightarrow> reqstate \<Rightarrow> reqstate" where
  "handleReturn vals st = emit (ReturnHandled vals) (st\<lparr>rw := returnHandler st (rw st) vals\<rparr>)"

text \<open>
  \<^verbatim>\<open>routeContext.run\<close> and \<^verbatim>\<open>routeContext.Next\<close> call each other through the handlers:
  \<open>route_exec hs Run\<close> is the loop of \<^verbatim>\<open>run\<close> from the current index, and
  \<open>route_exec hs (Body as)\<close> is the rest \<open>as\<close> of the body of the handler that is being
  invoked, in which \<open>DoNext\<close> is \<^verbatim>\<open>Next()\<close>: the index is incremented and \<^verbatim>\<open>run\<close> is
  entered again. The state is the index of the context and the state of the request.
  A handler whose arguments cannot be injected makes \<^verbatim>\<open>Invoke\<close> fail, and \<^verbatim>\<open>run\<close> panics.
\<close>

datatype task = Run | Body "action list"

fun body_of :: "handler \<Rightarrow> action list" where
  "body_of (Callable ok body rets) = body"
| "body_of NotCallable = []"

function route_exec :: "handler list \<Rightarrow> task \<Rightarrow> nat \<times> reqstate \<Rightarrow> error + nat \<times> reqstate" where
  "route_exec hs Run (i, st) =
     (if i < length hs then
        (case hs ! i of
           NotCallable \<Rightarrow> Inl HandlerNotCallable
         | Callable ok body rets \<Rightarrow>
             if \<not> ok then Inl InvokeFailed
             else (case route_exec hs (Body body) (i, emit (Invoked InRoute i (Written (rw st))) st) of
                     Inl e \<Rightarrow> Inl e
                   | Inr (i1, st1) \<Rightarrow>
                       let st2 = emit (Returned InRoute i rets) st1;
                           st3 = (if length rets > 0 then handleReturn rets st2 else st2)
                       in if Written (rw st3) then Inr (i1 + 1, st3)
                          else route_exec hs Run (i1 + 1, st3)))
      else Inr (i, st))"
| "route_exec hs (Body []) (i, st) = Inr (i, st)"
| "route_exec hs (Body (a # as)) (i, st) =
     (case a of
        DoNext \<Rightarrow>
          (case route_exec hs Run (i + 1, emit (NextCalled InRoute) st) of
             Inl e \<Rightarrow> Inl e
           | Inr (i1, st1) \<Rightarrow> route_exec hs (Body as) (i1, st1))
      | DoPanic \<Rightarrow> Inl HandlerPanicked
      | _ \<Rightarrow> route_exec hs (Body as) (i, st\<lparr>rw := do_action a (rw st)\<rparr>))"
  by pat_completeness auto

text \<open>The index never decreases; this is what makes the loop end.\<close>

lemma route_exec_index_partial:
  "route_exec_dom (hs, t, s) \<Longrightarrow> route_exec hs t s = Inr s' \<Longrightarrow> fst s \<le> fst s'"
proof (induction hs t s arbitrary: s' rule: route_exec.pinduct)
  case (1 hs i st)
  show ?case
  proof (cases "i < length hs")
    case False
    with "1.prems" "1.hyps" show ?thesis by (simp add: route_exec.psimps)
  next
    case True
    show ?thesis
    proof (cases "hs ! i")
      case NotCallable
      with True "1.prems" "1.hyps" show ?thesis by (simp add: route_exec.psimps)
    next
      case (Callable ok body rets)
      with True "1.prems" "1.hyps" have ok: "ok" by (auto simp: route_exec.psimps split: if_splits)
      let ?st0 = "emit (Invoked InRoute i (Written (rw st))) st"
      from True "1.prems" "1.hyps" Callable ok obtain i1 st1 where
        inner: "route_exec hs (Body body) (i, ?st0) = Inr (i1, st1)"
        by (auto simp: route_exec.psimps split: sum.splits)
      from "1.IH"(1) [OF True Callable _ inner] ok have le1: "i \<le> i1" by simp
      let ?st2 = "emit (Returned InRoute i rets) st1"
      let ?st3 = "if 0 < length rets then handleReturn rets ?st2 else ?st2"
      show ?thesis
      proof (cases "Written (rw ?st3)")
        case w: True
        with True "1.prems" "1.hyps" Callable ok inner have "s' = (i1 + 1, ?st3)"
          by (simp add: route_exec.psimps Let_def)
        with le1 show ?thesis by simp
      next
        case w: False
        with True "1.prems" "1.hyps" Callable ok inner
        have r: "route_exec hs Run (i1 + 1, ?st3) = Inr s'"
          by (simp add: route_exec.psimps Let_def)
        from "1.IH"(2) [OF True Callable _ inner _ refl refl w r] ok
        have "i1 + 1 \<le> fst s'" by simp
        with le1 show ?thesis by simp
      qed
    qed
  qed
next
  case (2 hs i st)
  then show ?case by (simp add: route_exec.psimps)
next
  case (3 hs a as i st)
  show ?case
  proof (cases a)
    case (DoWriteHeader x)
    with "3.prems" "3.hyps" have "route_exec hs (Body as) (i, st\<lparr>rw := do_action a (rw st)\<rparr>) = Inr s'"
      by (simp add: route_exec.psimps)
    from "3.IH"(1) [OF DoWriteHeader this] show ?thesis by simp
  next
    case (DoWrite x)
    with "3.prems" "3.hyps" have "route_exec hs (Body as) (i, st\<lparr>rw := do_action a (rw st)\<rparr>) = Inr s'"
      by (simp add: route_exec.psimps)
    from "3.IH"(2) [OF DoWrite this] show ?thesis by simp
  next
    case (DoBefore x)
    with "3.prems" "3.hyps" have "route_exec hs (Body as) (i, st\<lparr>rw := do_action a (rw st)\<rparr>) = Inr s'"
      by (simp add: route_exec.psimps)
    from "3.IH"(3) [OF DoBefore this] show ?thesis by simp
  next
    case DoNext
    with "3.prems" "3.hyps" obtain i1 st1 where
      inner: "route_exec hs Run (i + 1, emit (NextCalled InRoute) st) = Inr (i1, st1)"
      and outer: "route_exec hs (Body as) (i1, st1) = Inr s'"
      by (auto simp: route_exec.psimps split: sum.splits)
    from "3.IH"(4) [OF DoNext inner] have "i + 1 \<le> i1" by simp
    moreover from "3.IH"(5) [OF DoNext inner refl outer] have "i1 \<le> fst s'" by simp
    ultimately show ?thesis by simp
  next
    case DoPanic
    with "3.prems" "3.hyps" show ?thesis by (simp add: route_exec.psimps)
  qed
qed

definition route_measure :: "handler list \<times> task \<times> nat \<times> reqstate \<Rightarrow> nat \<times> nat" where
  "route_measure = (\<lambda>(hs, t, (i, st)). (length hs - i,
         case t of Run \<Rightarrow> (if i < length hs then 2 + sum_list (map (\<lambda>h. length (body_of h)) hs) else 0)
                 | Body as \<Rightarrow> 1 + length as))"

termination route_exec
proof (relation "inv_image (less_than <*lex*> less_than) route_measure", goal_cases)
  case 1
  show ?case by (intro wf_inv_image wf_lex_prod wf_less_than)
next
  case (2 hs i st ok body rets)
  have "length (body_of (hs ! i)) \<in> set (map (\<lambda>h. length (body_of h)) hs)"
    using 2(1) by (simp only: set_map) (rule imageI, rule nth_mem)
  then have "length (body_of (hs ! i)) \<le> sum_list (map (\<lambda>h. length (body_of h)) hs)"
    by (rule member_le_sum_list) simp_all
  with 2 show ?case by (simp add: route_measure_def)
next
  case (3 hs i st ok body rets b x y xa xb)
  from 3 have "route_exec hs (Body body) (i, emit (Invoked InRoute i (Written (rw st))) st) = Inr (x, y)"
    by simp
  with 3 have "i \<le> x" using route_exec_index_partial by fastforce
  with 3(1) show ?case by (simp add: route_measure_def) arith
next
  case (4 hs a as i st x1)
  then show ?case by (simp add: route_measure_def)
next
  case (5 hs a as i st x2)
  then show ?case by (simp add: route_measure_def)
next
  case (6 hs a as i st x3)
  then show ?case by (simp add: route_measure_def)
next
  case (7 hs a as i st)
  then show ?case by (simp add: route_measure_def) arith
next
  case (8 hs a as i st b x y)
  from 8 have "route_exec hs Run (i + 1, emit (NextCalled InRoute) st) = Inr (x, y)"
    by simp
  with 8 have "i + 1 \<le> x" using route_exec_index_partial by fastforce
  then show ?case by (auto simp add: route_measure_def)
qed

declare route_exec.simps [simp del]

text \<open>
  \<^verbatim>\<open>route.Handle\<close> makes a route context with index 0 over the handlers of the route and
  runs it; \<^verbatim>\<open>router.Handle\<close> does so for the first route that matches, after mapping its
  parameters, and for the not-found handlers when no route matches.
\<close>

definition route_Handle :: "route \<Rightarrow> reqstate \<Rightarrow> error + reqstate" where
  "route_Handle r st =
     (case route_exec (rhandlers r) Run (0, st) of Inl e \<Rightarrow> Inl e | Inr (i, st1) \<Rightarrow> Inr st1)"

fun Handle_routes :: "route list \<Rightarrow> handler list \<Rightarrow> reqstate \<Rightarrow> error + reqstate" where
  "Handle_routes [] nf st =
     (case route_exec nf Run (0, st) of Inl e \<Rightarrow> Inl e | Inr (i, st1) \<Rightarrow> Inr st1)"
| "Handle_routes (route # rs) nf st =
     (case Match route (Method (req st)) (Path (req st)) of
        (ok, vals) \<Rightarrow>
          if ok then route_Handle route (st\<lparr>params := Some vals\<rparr>)
          else Handle_routes rs nf st)"

definition Handle :: "router \<Rightarrow> reqstate \<Rightarrow> error + reqstate" where
  "Handle r st = Handle_routes (routes r) (notFounds r) st"

text \<open>
  The action of a Martini is a handler like any other, or the method value
  \<^verbatim>\<open>r.Handle\<close> of a router, as \<^verbatim>\<open>Classic\<close> sets it.
\<close>

datatype entry = Plain handler | RouterHandle router

definition context_handler :: "handler list \<Rightarrow> entry \<Rightarrow> nat \<Rightarrow> error + entry" where
  "context_handler hs act i =
     (if i < length hs then Inr (Plain (hs ! i))
      else if i = length hs then Inr act
      else Inl InvalidContextIndex)"

text \<open>
  \<^verbatim>\<open>context.run\<close> and \<^verbatim>\<open>context.Next\<close>: the loop runs while the index is at most the number
  of handlers, the action being the handler at that last index, and it drops the values
  a handler returns.
\<close>

function context_exec :: "handler list \<Rightarrow> entry \<Rightarrow> task \<Rightarrow> nat \<times> reqstate \<Rightarrow> error + nat \<times> reqstate" where
  "context_exec hs act Run (i, st) =
     (if i \<le> length hs then
        (case context_handler hs act i of
           Inl e \<Rightarrow> Inl e
         | Inr (RouterHandle r) \<Rightarrow>
             (case Handle r (emit (Invoked InContext i (Written (rw st))) st) of
                Inl e \<Rightarrow> Inl e
              | Inr st1 \<Rightarrow>
                  let st2 = emit (Returned InContext i []) st1
                  in if Written (rw st2) then Inr (i + 1, st2)
                     else context_exec hs act Run (i + 1, st2))
         | Inr (Plain NotCallable) \<Rightarrow> Inl HandlerNotCallable
         | Inr (Plain (Callable ok body rets)) \<Rightarrow>
             if \<not> ok then Inl InvokeFailed
             else (case context_exec hs act (Body body)
                          (i, emit (Invoked InContext i (Written (rw st))) st) of
                     Inl e \<Rightarrow> Inl e
                   | Inr (i1, st1) \<Rightarrow>
                       let st2 = emit (Returned InContext i rets) st1
                       in if Written (rw st2) then Inr (i1 + 1, st2)
                          else context_exec hs act Run (i1 + 1, st2)))
      else Inr (i, st))"
| "context_exec hs act (Body []) (i, st) = Inr (i, st)"
| "context_exec hs act (Body (a # as)) (i, st) =
     (case a of
        DoNext \<Rightarrow>
          (case context_exec hs act Run (i + 1, emit (NextCalled InContext) st) of
             Inl e \<Rightarrow> Inl e
           | Inr (i1, st1) \<Rightarrow> context_exec hs act (Body as) (i1, st1))
      | DoPanic \<Rightarrow> Inl HandlerPanicked
      | _ \<Rightarrow> context_exec hs act (Body as) (i, st\<lparr>rw := do_action a (rw st)\<rparr>))"
  by pat_completeness auto

lemma context_exec_index_partial:
  "context_exec_dom (hs, act, t, s) \<Longrightarrow> context_exec hs act t s = Inr s' \<Longrightarrow> fst s \<le> fst s'"
proof (induction hs act t s arbitrary: s' rule: context_exec.pinduct)
  case (1 hs act i st)
  let ?st0 = "emit (Invoked InContext i (Written (rw st))) st"
  show ?case
  proof (cases "i \<le> length hs")
    case False
    with "1.prems" "1.hyps" show ?thesis by (simp add: context_exec.psimps)
  next
    case True
    show ?thesis
    proof (cases "context_handler hs act i")
      case (Inl e)
      with True "1.prems" "1.hyps" show ?thesis by (simp add: context_exec.psimps)
    next
      case (Inr h)
      show ?thesis
      proof (cases h)
        case (RouterHandle r)
        with True Inr "1.prems" "1.hyps" obtain st1 where
          inner: "Handle r ?st0 = Inr st1"
          by (auto simp: context_exec.psimps split: sum.splits)
        let ?st2 = "emit (Returned InContext i []) st1"
        show ?thesis
        proof (cases "Written (rw ?st2)")
          case w: True
          with True Inr RouterHandle inner "1.prems" "1.hyps" have "s' = (i + 1, ?st2)"
            by (simp add: context_exec.psimps Let_def)
          then show ?thesis by simp
        next
          case w: False
          with True Inr RouterHandle inner "1.prems" "1.hyps"
          have r: "context_exec hs act Run (i + 1, ?st2) = Inr s'"
            by (simp add: context_exec.psimps Let_def)
          from "1.IH"(3) [OF True Inr RouterHandle inner refl w r]
          show ?thesis by simp
        qed
      next
        case (Plain h')
        show ?thesis
        proof (cases h')
          case NotCallable
          with True Inr Plain "1.prems" "1.hyps" show ?thesis
            by (simp add: context_exec.psimps)
        next
          case (Callable ok body rets)
          with True Inr Plain "1.prems" "1.hyps" have ok: "ok"
            by (auto simp: context_exec.psimps split: if_splits)
          from True Inr Plain Callable ok "1.prems" "1.hyps" obtain i1 st1 where
            inner: "context_exec hs act (Body body) (i, ?st0) = Inr (i1, st1)"
            by (auto simp: context_exec.psimps split: sum.splits)
          from "1.IH"(1) [OF True Inr Plain Callable _ inner] ok have le1: "i \<le> i1" by simp
          let ?st2 = "emit (Returned InContext i rets) st1"
          show ?thesis
          proof (cases "Written (rw ?st2)")
            case w: True
            with True Inr Plain Callable ok inner "1.prems" "1.hyps" have "s' = (i1 + 1, ?st2)"
              by (simp add: context_exec.psimps Let_def)
            with le1 show ?thesis by simp
          next
            case w: False
            with True Inr Plain Callable ok inner "1.prems" "1.hyps"
            have r: "context_exec hs act Run (i1 + 1, ?st2) = Inr s'"
              by (simp add: context_exec.psimps Let_def)
            from "1.IH"(2) [OF True Inr Plain Callable _ inner refl refl w r] ok
            have "i1 + 1 \<le> fst s'" by simp
            with le1 show ?thesis by simp
          qed
        qed
      qed
    qed
  qed
next
  case (2 hs act i st)
  then show ?case by (simp add: context_exec.psimps)
next
  case (3 hs act a as i st)
  show ?case
  proof (cases a)
    case (DoWriteHeader x)
    with "3.prems" "3.hyps"
    have "context_exec hs act (Body as) (i, st\<lparr>rw := do_action a (rw st)\<rparr>) = Inr s'"
      by (simp add: context_exec.psimps)
    from "3.IH"(1) [OF DoWriteHeader this] show ?thesis by simp
  next
    case (DoWrite x)
    with "3.prems" "3.hyps"
    have "context_exec hs act (Body as) (i, st\<lparr>rw := do_action a (rw st)\<rparr>) = Inr s'"
      by (simp add: context_exec.psimps)
    from "3.IH"(2) [OF DoWrite this] show ?thesis by simp
  next
    case (DoBefore x)
    with "3.prems" "3.hyps"
    have "context_exec hs act (Body as) (i, st\<lparr>rw := do_action a (rw st)\<rparr>) = Inr s'"
      by (simp add: context_exec.psimps)
    from "3.IH"(3) [OF DoBefore this] show ?thesis by simp
  next
    case DoNext
    with "3.prems" "3.hyps" obtain i1 st1 where
      inner: "context_exec hs act Run (i + 1, emit (NextCalled InContext) st) = Inr (i1, st1)"
      and outer: "context_exec hs act (Body as) (i1, st1) = Inr s'"
      by (auto simp: context_exec.psimps split: sum.splits)
    from "3.IH"(4) [OF DoNext inner] have "i + 1 \<le> i1" by simp
    moreover from "3.IH"(5) [OF DoNext inner refl outer] have "i1 \<le> fst s'" by simp
    ultimately show ?thesis by simp
  next
    case DoPanic
    with "3.prems" "3.hyps" show ?thesis by (simp add: context_exec.psimps)
  qed
qed

fun entry_body :: "entry \<Rightarrow> action list" where
  "entry_body (Plain h) = body_of h"
| "entry_body (RouterHandle r) = []"

definition context_measure :: "handler list \<times> entry \<times> task \<times> nat \<times> reqstate \<Rightarrow> nat \<times> nat" where
  "context_measure = (\<lambda>(hs, act, t, (i, st)). (length hs + 1 - i,
     case t of
       Run \<Rightarrow> (if i \<le> length hs
               then 2 + sum_list (map (\<lambda>h. length (body_of h)) hs) + length (entry_body act)
               else 0)
     | Body as \<Rightarrow> 1 + length as))"

termination context_exec
proof (relation "inv_image (less_than <*lex*> less_than) context_measure", goal_cases)
  case 1
  show ?case by (intro wf_inv_image wf_lex_prod wf_less_than)
next
  case (2 hs act i st b h ok body rets)
  have "length body \<le> sum_list (map (\<lambda>h. length (body_of h)) hs) + length (entry_body act)"
  proof (cases "i < length hs")
    case True
    with 2 have "hs ! i = Callable ok body rets" by (simp add: context_handler_def)
    then have "length body = length (body_of (hs ! i))" by simp
    moreover have "length (body_of (hs ! i)) \<in> set (map (\<lambda>h. length (body_of h)) hs)"
      using True by (simp only: set_map) (rule imageI, rule nth_mem)
    then have "length (body_of (hs ! i)) \<le> sum_list (map (\<lambda>h. length (body_of h)) hs)"
      by (rule member_le_sum_list) simp_all
    ultimately show ?thesis by simp
  next
    case False
    with 2 have "act = Plain (Callable ok body rets)"
      by (simp add: context_handler_def split: if_splits)
    then show ?thesis by simp
  qed
  with 2 show ?case by (simp add: context_measure_def)
next
  case (3 hs act i st b h ok body rets ba x y xa)
  from 3 have "context_exec hs act (Body body) (i, emit (Invoked InContext i (Written (rw st))) st) = Inr (x, y)"
    by simp
  with 3 have "i \<le> x" using context_exec_index_partial by fastforce
  with 3(1) show ?case by (simp add: context_measure_def) arith
next
  case (4 hs act i st b r ba x)
  then show ?case by (simp add: context_measure_def) arith
next
  case (5 hs act a as i st x1)
  then show ?case by (simp add: context_measure_def)
next
  case (6 hs act a as i st x2)
  then show ?case by (simp add: context_measure_def)
next
  case (7 hs act a as i st x3)
  then show ?case by (simp add: context_measure_def)
next
  case (8 hs act a as i st)
  then show ?case by (simp add: context_measure_def) arith
next
  case (9 hs act a as i st b x y)
  from 9 have "context_exec hs act Run (i + 1, emit (NextCalled InContext) st) = Inr (x, y)"
    by simp
  with 9 have "i + 1 \<le> x" using context_exec_index_partial by fastforce
  then show ?case by (auto simp add: context_measure_def)
qed

declare context_exec.simps [simp del]

text \<open>
  A Martini: its handlers, its action, and the \<^verbatim>\<open>ReturnHandler\<close> mapped in its injector.
  \<^verbatim>\<open>ServeHTTP\<close> creates the context of the request, with a fresh response wrapper around
  the sink and index 0, and runs it.
\<close>

record martini =
  handlers :: "handler list"
  action :: entry
  mappedReturnHandler :: "responseWriter \<Rightarrow> rvalue list \<Rightarrow> responseWriter"

definition New :: martini where
  "New = \<lparr>handlers = [], action = Plain (Callable True [] []),
          mappedReturnHandler = defaultReturnHandler\<rparr>"

definition Use :: "handler \<Rightarrow> martini \<Rightarrow> error + martini" where
  "Use h m = (case validateHandler h of Inl e \<Rightarrow> Inl e
              | Inr u \<Rightarrow> Inr (m\<lparr>handlers := handlers m @ [h]\<rparr>))"

definition Action :: "entry \<Rightarrow> martini \<Rightarrow> error + martini" where
  "Action e m =
     (case e of
        Plain h \<Rightarrow> (case validateHandler h of Inl x \<Rightarrow> Inl x | Inr u \<Rightarrow> Inr (m\<lparr>action := e\<rparr>))
      | RouterHandle r \<Rightarrow> Inr (m\<lparr>action := e\<rparr>))"

definition createContext :: "martini \<Rightarrow> sink \<Rightarrow> request \<Rightarrow> nat \<times> reqstate" where
  "createContext m res r =
     (0, \<lparr>req = r, rw = NewResponseWriter res, params = None,
          returnHandler = mappedReturnHandler m, trace = []\<rparr>)"

definition ServeHTTP :: "martini \<Rightarrow> sink \<Rightarrow> request \<Rightarrow> error + reqstate" where
  "ServeHTTP m res r =
     (case context_exec (handlers m) (action m) Run (createContext m res r) of
        Inl e \<Rightarrow> Inl e
      | Inr (i, st) \<Rightarrow> Inr st)"

subsection \<open>Short circuit\<close>

text \<open>
  An invocation is prompted when the response is not written at that moment, or when it
  directly follows a call of \<^verbatim>\<open>Next\<close> on the same context, or when it is the invocation of
  the first handler of a route context, which \<^verbatim>\<open>route.Handle\<close> makes without a test.
\<close>

fun prompted_event :: "tevent option \<Rightarrow> tevent \<Rightarrow> bool" where
  "prompted_event prev (Invoked l i w) =
     (\<not> w \<or> prev = Some (NextCalled l) \<or> (l = InRoute \<and> i = 0))"
| "prompted_event prev e = True"

fun prompted :: "tevent option \<Rightarrow> tevent list \<Rightarrow> bool" where
  "prompted prev [] = True"
| "prompted prev (e # es) = (prompted_event prev e \<and> prompted (Some e) es)"

definition last_event :: "tevent option \<Rightarrow> tevent list \<Rightarrow> tevent option" where
  "last_event prev es = (if es = [] then prev else Some (last es))"

lemma prompted_append:
  "prompted prev (xs @ ys) = (prompted prev xs \<and> prompted (last_event prev xs) ys)"
  by (induction xs arbitrary: prev) (auto simp: last_event_def)

lemma trace_emit [simp]: "trace (emit e st) = trace st @ [e]" "rw (emit e st) = rw st"
  by (simp_all add: emit_def)

lemma trace_handleReturn [simp]:
  "trace (handleReturn vals st) = trace st @ [ReturnHandled vals]"
  "rw (handleReturn vals st) = returnHandler st (rw st) vals"
  by (simp_all add: handleReturn_def emit_def)

lemma route_exec_Run_cases:
  assumes "route_exec hs Run (i, st) = Inr s'"
  obtains (out) "\<not> i < length hs" "s' = (i, st)"
  | (stop) body rets i1 st1 where "i < length hs" "hs ! i = Callable True body rets"
      "route_exec hs (Body body) (i, emit (Invoked InRoute i (Written (rw st))) st) = Inr (i1, st1)"
      "Written (rw (if 0 < length rets then handleReturn rets (emit (Returned InRoute i rets) st1)
                    else emit (Returned InRoute i rets) st1))"
      "s' = (i1 + 1, if 0 < length rets then handleReturn rets (emit (Returned InRoute i rets) st1)
                    else emit (Returned InRoute i rets) st1)"
  | (again) body rets i1 st1 where "i < length hs" "hs ! i = Callable True body rets"
      "route_exec hs (Body body) (i, emit (Invoked InRoute i (Written (rw st))) st) = Inr (i1, st1)"
      "\<not> Written (rw (if 0 < length rets then handleReturn rets (emit (Returned InRoute i rets) st1)
                    else emit (Returned InRoute i rets) st1))"
      "route_exec hs Run (i1 + 1, if 0 < length rets then handleReturn rets (emit (Returned InRoute i rets) st1)
                    else emit (Returned InRoute i rets) st1) = Inr s'"
proof (cases "i < length hs")
  case False
  with assms out show ?thesis by (simp add: route_exec.simps)
next
  case True
  show ?thesis
  proof (cases "hs ! i")
    case NotCallable
    with True assms show ?thesis by (simp add: route_exec.simps)
  next
    case (Callable ok body rets)
    with True assms have ok: "ok" by (auto simp: route_exec.simps split: if_splits)
    with Callable have c: "hs ! i = Callable True body rets" by simp
    from True assms Callable ok obtain i1 st1 where
      inner: "route_exec hs (Body body) (i, emit (Invoked InRoute i (Written (rw st))) st) = Inr (i1, st1)"
      by (auto simp: route_exec.simps split: sum.splits)
    let ?st3 = "if 0 < length rets then handleReturn rets (emit (Returned InRoute i rets) st1)
                    else emit (Returned InRoute i rets) st1"
    show ?thesis
    proof (cases "Written (rw ?st3)")
      case w: True
      with True assms Callable ok inner have "s' = (i1 + 1, ?st3)"
        by (simp add: route_exec.simps Let_def)
      with True c inner w stop show ?thesis by blast
    next
      case w: False
      with True assms Callable ok inner have "route_exec hs Run (i1 + 1, ?st3) = Inr s'"
        by (simp add: route_exec.simps Let_def)
      with True c inner w again show ?thesis by blast
    qed
  qed
qed

lemma route_exec_Body_cases:
  assumes "route_exec hs (Body (a # as)) (i, st) = Inr s'"
  obtains (prim) "a \<noteq> DoNext" "a \<noteq> DoPanic"
      "route_exec hs (Body as) (i, st\<lparr>rw := do_action a (rw st)\<rparr>) = Inr s'"
  | (resume) i1 st1 where "a = DoNext"
      "route_exec hs Run (i + 1, emit (NextCalled InRoute) st) = Inr (i1, st1)"
      "route_exec hs (Body as) (i1, st1) = Inr s'"
  using assms by (cases a) (auto simp: route_exec.simps split: sum.splits)

lemma route_trace_prompted:
  "route_exec hs t s = Inr s' \<Longrightarrow>
   \<exists>ext. trace (snd s') = trace (snd s) @ ext
     \<and> (\<forall>prev. (t = Run \<and> fst s < length hs \<and> Written (rw (snd s))
                  \<longrightarrow> prev = Some (NextCalled InRoute) \<or> fst s = 0)
           \<longrightarrow> prompted prev ext)"
proof (induction hs t s arbitrary: s' rule: route_exec.induct)
  case (1 hs i st)
  from "1.prems" show ?case
  proof (cases rule: route_exec_Run_cases)
    case out
    then show ?thesis by simp
  next
    case (stop body rets i1 st1)
    from "1.IH"(1) [OF stop(1,2) _ stop(3)] obtain ext1 where
      e1: "trace st1 = trace st @ Invoked InRoute i (Written (rw st)) # ext1"
        "\<And>prev. prompted prev ext1"
      by auto
    let ?tail = "if 0 < length rets then [Returned InRoute i rets, ReturnHandled rets]
                 else [Returned InRoute i rets]"
    have t: "trace (snd s') = trace st @ Invoked InRoute i (Written (rw st)) # ext1 @ ?tail"
      using stop(5) e1(1) by simp
    have p: "\<And>prev. prompted prev (ext1 @ ?tail)"
      using e1(2) by (simp add: prompted_append)
    show ?thesis
      using t p stop(1)
      by (intro exI [of _ "Invoked InRoute i (Written (rw st)) # ext1 @ ?tail"]) auto
  next
    case (again body rets i1 st1)
    let ?st3 = "if 0 < length rets then handleReturn rets (emit (Returned InRoute i rets) st1)
                    else emit (Returned InRoute i rets) st1"
    from "1.IH"(1) [OF again(1,2) _ again(3)] obtain ext1 where
      e1: "trace st1 = trace st @ Invoked InRoute i (Written (rw st)) # ext1"
        "\<And>prev. prompted prev ext1"
      by auto
    from "1.IH"(2) [OF again(1,2) _ again(3) _ refl refl again(4) again(5)] again(4)
    obtain ext2 where
      e2: "trace (snd s') = trace ?st3 @ ext2" "\<And>prev. prompted prev ext2"
      by auto
    let ?tail = "if 0 < length rets then [Returned InRoute i rets, ReturnHandled rets]
                 else [Returned InRoute i rets]"
    have t: "trace (snd s') = trace st @ Invoked InRoute i (Written (rw st)) # ext1 @ ?tail @ ext2"
      using e2(1) e1(1) by simp
    have p: "\<And>prev. prompted prev (ext1 @ ?tail @ ext2)"
      using e1(2) e2(2) by (simp add: prompted_append)
    show ?thesis
      using t p again(1)
      by (intro exI [of _ "Invoked InRoute i (Written (rw st)) # ext1 @ ?tail @ ext2"]) auto
  qed
next
  case (2 hs i st)
  then show ?case by (simp add: route_exec.simps)
next
  case (3 hs a as i st)
  from "3.prems" show ?case
  proof (cases rule: route_exec_Body_cases)
    case prim
    have "\<exists>ext. trace (snd s') = trace (st\<lparr>rw := do_action a (rw st)\<rparr>) @ ext
        \<and> (\<forall>prev. prompted prev ext)"
    proof (cases a)
      case (DoWriteHeader x)
      from "3.IH"(1) [OF this prim(3)] show ?thesis by simp
    next
      case (DoWrite x)
      from "3.IH"(2) [OF this prim(3)] show ?thesis by simp
    next
      case (DoBefore x)
      from "3.IH"(3) [OF this prim(3)] show ?thesis by simp
    next
      case DoNext
      with prim show ?thesis by simp
    next
      case DoPanic
      with prim show ?thesis by simp
    qed
    then show ?thesis by simp
  next
    case (resume i1 st1)
    from "3.IH"(4) [OF resume(1,2)] obtain ext1 where
      e1: "trace st1 = trace st @ NextCalled InRoute # ext1"
        "prompted (Some (NextCalled InRoute)) ext1"
      by auto
    from "3.IH"(5) [OF resume(1,2) refl resume(3)] obtain ext2 where
      e2: "trace (snd s') = trace st1 @ ext2" "\<And>prev. prompted prev ext2"
      by auto
    have t: "trace (snd s') = trace st @ NextCalled InRoute # ext1 @ ext2"
      using e1(1) e2(1) by simp
    have p: "\<And>prev. prompted prev (NextCalled InRoute # ext1 @ ext2)"
      using e1(2) e2(2) by (simp add: prompted_append)
    show ?thesis
      using t p by (intro exI [of _ "NextCalled InRoute # ext1 @ ext2"]) auto
  qed
qed

text \<open>
  A trace hands every return to the return handler when each return of one or more
  values from a handler of a route context is directly followed by the call of the
  \<^verbatim>\<open>ReturnHandler\<close> with those values.
\<close>

fun returns_handled :: "tevent list \<Rightarrow> bool" where
  "returns_handled [] = True"
| "returns_handled (Returned InRoute i vals # es) =
     ((vals = [] \<or> take 1 es = [ReturnHandled vals]) \<and> returns_handled es)"
| "returns_handled (e # es) = returns_handled es"

lemma returns_handled_append:
  "returns_handled xs \<Longrightarrow> returns_handled ys \<Longrightarrow> returns_handled (xs @ ys)"
proof (induction xs rule: returns_handled.induct)
  case 1
  then show ?case by simp
next
  case (2 i vals es)
  then have "vals = [] \<or> take 1 (es @ ys) = [ReturnHandled vals]"
    by (cases es) auto
  with 2 show ?case by simp
qed simp_all

lemma route_trace_returns:
  "route_exec hs t s = Inr s' \<Longrightarrow>
   \<exists>ext. trace (snd s') = trace (snd s) @ ext \<and> returns_handled ext"
proof (induction hs t s arbitrary: s' rule: route_exec.induct)
  case (1 hs i st)
  from "1.prems" show ?case
  proof (cases rule: route_exec_Run_cases)
    case out
    then show ?thesis by simp
  next
    case (stop body rets i1 st1)
    from "1.IH"(1) [OF stop(1,2) _ stop(3)] obtain ext1 where
      e1: "trace st1 = trace st @ Invoked InRoute i (Written (rw st)) # ext1"
        "returns_handled ext1"
      by auto
    let ?tail = "if 0 < length rets then [Returned InRoute i rets, ReturnHandled rets]
                 else [Returned InRoute i rets]"
    have t: "trace (snd s') = trace st @ Invoked InRoute i (Written (rw st)) # ext1 @ ?tail"
      using stop(5) e1(1) by simp
    have "returns_handled ?tail" by simp
    with e1(2) have "returns_handled (ext1 @ ?tail)" by (rule returns_handled_append)
    then have "returns_handled (Invoked InRoute i (Written (rw st)) # ext1 @ ?tail)" by simp
    with t show ?thesis by auto
  next
    case (again body rets i1 st1)
    let ?st3 = "if 0 < length rets then handleReturn rets (emit (Returned InRoute i rets) st1)
                    else emit (Returned InRoute i rets) st1"
    from "1.IH"(1) [OF again(1,2) _ again(3)] obtain ext1 where
      e1: "trace st1 = trace st @ Invoked InRoute i (Written (rw st)) # ext1"
        "returns_handled ext1"
      by auto
    from "1.IH"(2) [OF again(1,2) _ again(3) _ refl refl again(4) again(5)]
    obtain ext2 where
      e2: "trace (snd s') = trace ?st3 @ ext2" "returns_handled ext2"
      by auto
    let ?tail = "if 0 < length rets then [Returned InRoute i rets, ReturnHandled rets]
                 else [Returned InRoute i rets]"
    have t: "trace (snd s') = trace st @ Invoked InRoute i (Written (rw st)) # ext1 @ ?tail @ ext2"
      using e2(1) e1(1) by simp
    have "returns_handled ?tail" by simp
    then have "returns_handled (?tail @ ext2)" using e2(2) by (rule returns_handled_append)
    with e1(2) have "returns_handled (ext1 @ ?tail @ ext2)" by (rule returns_handled_append)
    then have "returns_handled (Invoked InRoute i (Written (rw st)) # ext1 @ ?tail @ ext2)"
      by simp
    with t show ?thesis by auto
  qed
next
  case (2 hs i st)
  then show ?case by (simp add: route_exec.simps)
next
  case (3 hs a as i st)
  from "3.prems" show ?case
  proof (cases rule: route_exec_Body_cases)
    case prim
    have "\<exists>ext. trace (snd s') = trace (st\<lparr>rw := do_action a (rw st)\<rparr>) @ ext
        \<and> returns_handled ext"
    proof (cases a)
      case (DoWriteHeader x)
      from "3.IH"(1) [OF this prim(3)] show ?thesis by simp
    next
      case (DoWrite x)
      from "3.IH"(2) [OF this prim(3)] show ?thesis by simp
    next
      case (DoBefore x)
      from "3.IH"(3) [OF this prim(3)] show ?thesis by simp
    next
      case DoNext
      with prim show ?thesis by simp
    next
      case DoPanic
      with prim show ?thesis by simp
    qed
    then show ?thesis by simp
  next
    case (resume i1 st1)
    from "3.IH"(4) [OF resume(1,2)] obtain ext1 where
      e1: "trace st1 = trace st @ NextCalled InRoute # ext1" "returns_handled ext1"
      by auto
    from "3.IH"(5) [OF resume(1,2) refl resume(3)] obtain ext2 where
      e2: "trace (snd s') = trace st1 @ ext2" "returns_handled ext2"
      by auto
    have t: "trace (snd s') = trace st @ NextCalled InRoute # ext1 @ ext2"
      using e1(1) e2(1) by simp
    from e1(2) e2(2) have "returns_handled (ext1 @ ext2)" by (rule returns_handled_append)
    then have "returns_handled (NextCalled InRoute # ext1 @ ext2)" by simp
    with t show ?thesis by auto
  qed
qed

lemma route_exec_plain_body:
  "DoNext \<notin> set as \<Longrightarrow> DoPanic \<notin> set as \<Longrightarrow>
   route_exec hs (Body as) (i, st) = Inr (i, st\<lparr>rw := fold do_action as (rw st)\<rparr>)"
proof (induction as arbitrary: st)
  case Nil
  then show ?case by (simp add: route_exec.simps)
next
  case (Cons a as)
  then show ?case by (cases a) (simp_all add: route_exec.simps)
qed

lemma route_exec_plain_step:
  assumes "i < length hs" "hs ! i = Callable True body rets"
    "DoNext \<notin> set body" "DoPanic \<notin> set body"
  shows "route_exec hs Run (i, st) =
     (let st1 = (emit (Invoked InRoute i (Written (rw st))) st)\<lparr>rw := fold do_action body (rw st)\<rparr>;
          st2 = emit (Returned InRoute i rets) st1;
          st3 = (if rets \<noteq> [] then handleReturn rets st2 else st2)
      in if Written (rw st3) then Inr (i + 1, st3) else route_exec hs Run (i + 1, st3))"
  using assms by (subst route_exec.simps) (simp add: route_exec_plain_body Let_def)

lemma Handle_routes_traces:
  "Handle_routes rs nf st = Inr st' \<Longrightarrow>
   \<exists>ext. trace st' = trace st @ ext \<and> (\<forall>prev. prompted prev ext) \<and> returns_handled ext"
proof (induction rs)
  case Nil
  then obtain i where r: "route_exec nf Run (0, st) = Inr (i, st')"
    by (auto split: sum.splits)
  from route_trace_prompted [OF r] route_trace_returns [OF r] show ?case
    by auto
next
  case (Cons rt rs)
  obtain ok vals where m: "Match rt (Method (req st)) (Path (req st)) = (ok, vals)"
    by (cases "Match rt (Method (req st)) (Path (req st))")
  show ?case
  proof (cases ok)
    case True
    with Cons.prems m obtain i where
      r: "route_exec (rhandlers rt) Run (0, st\<lparr>params := Some vals\<rparr>) = Inr (i, st')"
      by (auto simp: route_Handle_def split: sum.splits)
    from route_trace_prompted [OF r] route_trace_returns [OF r] show ?thesis
      by auto
  next
    case False
    with Cons m show ?thesis by simp
  qed
qed

lemma context_exec_Run_cases:
  assumes "context_exec hs act Run (i, st) = Inr s'"
  obtains (out) "\<not> i \<le> length hs" "s' = (i, st)"
  | (routed) r st1 where "i \<le> length hs" "context_handler hs act i = Inr (RouterHandle r)"
      "Handle r (emit (Invoked InContext i (Written (rw st))) st) = Inr st1"
      "Written (rw st1)" "s' = (i + 1, emit (Returned InContext i []) st1)"
  | (routed_again) r st1 where "i \<le> length hs" "context_handler hs act i = Inr (RouterHandle r)"
      "Handle r (emit (Invoked InContext i (Written (rw st))) st) = Inr st1"
      "\<not> Written (rw st1)"
      "context_exec hs act Run (i + 1, emit (Returned InContext i []) st1) = Inr s'"
  | (stop) body rets i1 st1 where "i \<le> length hs"
      "context_handler hs act i = Inr (Plain (Callable True body rets))"
      "context_exec hs act (Body body) (i, emit (Invoked InContext i (Written (rw st))) st)
         = Inr (i1, st1)"
      "Written (rw st1)" "s' = (i1 + 1, emit (Returned InContext i rets) st1)"
  | (again) body rets i1 st1 where "i \<le> length hs"
      "context_handler hs act i = Inr (Plain (Callable True body rets))"
      "context_exec hs act (Body body) (i, emit (Invoked InContext i (Written (rw st))) st)
         = Inr (i1, st1)"
      "\<not> Written (rw st1)"
      "context_exec hs act Run (i1 + 1, emit (Returned InContext i rets) st1) = Inr s'"
proof (cases "i \<le> length hs")
  case False
  with assms out show ?thesis by (simp add: context_exec.simps)
next
  case True
  show ?thesis
  proof (cases "context_handler hs act i")
    case (Inl e)
    with True assms show ?thesis by (simp add: context_exec.simps)
  next
    case (Inr h)
    show ?thesis
    proof (cases h)
      case (RouterHandle r)
      with True Inr assms obtain st1 where
        inner: "Handle r (emit (Invoked InContext i (Written (rw st))) st) = Inr st1"
        by (auto simp: context_exec.simps split: sum.splits)
      show ?thesis
      proof (cases "Written (rw st1)")
        case w: True
        with True Inr RouterHandle inner assms
        have "s' = (i + 1, emit (Returned InContext i []) st1)"
          by (simp add: context_exec.simps Let_def)
        with True Inr RouterHandle inner w routed show ?thesis by blast
      next
        case w: False
        with True Inr RouterHandle inner assms
        have "context_exec hs act Run (i + 1, emit (Returned InContext i []) st1) = Inr s'"
          by (simp add: context_exec.simps Let_def)
        with True Inr RouterHandle inner w routed_again show ?thesis by blast
      qed
    next
      case (Plain h')
      show ?thesis
      proof (cases h')
        case NotCallable
        with True Inr Plain assms show ?thesis by (simp add: context_exec.simps)
      next
        case (Callable ok body rets)
        with True Inr Plain assms have ok: "ok"
          by (auto simp: context_exec.simps split: if_splits)
        with Inr Plain Callable
        have c: "context_handler hs act i = Inr (Plain (Callable True body rets))" by simp
        from True c assms obtain i1 st1 where
          inner: "context_exec hs act (Body body)
                    (i, emit (Invoked InContext i (Written (rw st))) st) = Inr (i1, st1)"
          by (auto simp: context_exec.simps split: sum.splits)
        show ?thesis
        proof (cases "Written (rw st1)")
          case w: True
          with True c inner assms
          have "s' = (i1 + 1, emit (Returned InContext i rets) st1)"
            by (simp add: context_exec.simps Let_def)
          with True c inner w stop show ?thesis by blast
        next
          case w: False
          with True c inner assms
          have "context_exec hs act Run (i1 + 1, emit (Returned InContext i rets) st1) = Inr s'"
            by (simp add: context_exec.simps Let_def)
          with True c inner w again show ?thesis by blast
        qed
      qed
    qed
  qed
qed

lemma context_exec_Body_cases:
  assumes "context_exec hs act (Body (a # as)) (i, st) = Inr s'"
  obtains (prim) "a \<noteq> DoNext" "a \<noteq> DoPanic"
      "context_exec hs act (Body as) (i, st\<lparr>rw := do_action a (rw st)\<rparr>) = Inr s'"
  | (resume) i1 st1 where "a = DoNext"
      "context_exec hs act Run (i + 1, emit (NextCalled InContext) st) = Inr (i1, st1)"
      "context_exec hs act (Body as) (i1, st1) = Inr s'"
  using assms by (cases a) (auto simp: context_exec.simps split: sum.splits)

lemma context_handler_router:
  "context_handler hs act i = Inr (RouterHandle r) \<Longrightarrow> act = RouterHandle r"
  by (auto simp: context_handler_def split: if_splits)

lemma context_traces:
  "context_exec hs act t s = Inr s' \<Longrightarrow>
   \<exists>ext. trace (snd s') = trace (snd s) @ ext
     \<and> (\<forall>prev. (t = Run \<and> fst s \<le> length hs \<and> Written (rw (snd s))
                  \<longrightarrow> prev = Some (NextCalled InContext))
           \<longrightarrow> prompted prev ext)
     \<and> ((\<forall>r. act \<noteq> RouterHandle r) \<longrightarrow> (\<forall>vals. ReturnHandled vals \<notin> set ext))"
proof (induction hs act t s arbitrary: s' rule: context_exec.induct)
  case (1 hs act i st)
  let ?inv = "Invoked InContext i (Written (rw st))"
  from "1.prems" show ?case
  proof (cases rule: context_exec_Run_cases)
    case out
    then show ?thesis by simp
  next
    case (routed r st1)
    from routed(3) obtain ext1 where
      e1: "trace st1 = trace st @ ?inv # ext1" "\<And>prev. prompted prev ext1"
      using Handle_routes_traces [of "routes r" "notFounds r" "emit ?inv st" st1]
      by (auto simp: Handle_def)
    have t: "trace (snd s') = trace st @ ?inv # ext1 @ [Returned InContext i []]"
      using routed(5) e1(1) by simp
    have p: "\<And>prev. prompted prev (ext1 @ [Returned InContext i []])"
      using e1(2) by (simp add: prompted_append)
    show ?thesis
      using t p routed(1) context_handler_router [OF routed(2)]
      by (intro exI [of _ "?inv # ext1 @ [Returned InContext i []]"]) auto
  next
    case (routed_again r st1)
    from routed_again(3) obtain ext1 where
      e1: "trace st1 = trace st @ ?inv # ext1" "\<And>prev. prompted prev ext1"
      using Handle_routes_traces [of "routes r" "notFounds r" "emit ?inv st" st1]
      by (auto simp: Handle_def)
    from "1.IH"(3) [OF routed_again(1,2) refl routed_again(3) refl _ routed_again(5)]
      routed_again(4)
    obtain ext2 where
      e2: "trace (snd s') = trace (emit (Returned InContext i []) st1) @ ext2"
        "\<And>prev. prompted prev ext2"
      by auto
    have t: "trace (snd s') = trace st @ ?inv # ext1 @ Returned InContext i [] # ext2"
      using e2(1) e1(1) by simp
    have p: "\<And>prev. prompted prev (ext1 @ Returned InContext i [] # ext2)"
      using e1(2) e2(2) by (simp add: prompted_append)
    show ?thesis
      using t p routed_again(1) context_handler_router [OF routed_again(2)]
      by (intro exI [of _ "?inv # ext1 @ Returned InContext i [] # ext2"]) auto
  next
    case (stop body rets i1 st1)
    from "1.IH"(1) [OF stop(1,2) refl refl _ stop(3)] obtain ext1 where
      e1: "trace st1 = trace st @ ?inv # ext1" "\<And>prev. prompted prev ext1"
        "(\<forall>r. act \<noteq> RouterHandle r) \<longrightarrow> (\<forall>vals. ReturnHandled vals \<notin> set ext1)"
      by auto
    have t: "trace (snd s') = trace st @ ?inv # ext1 @ [Returned InContext i rets]"
      using stop(5) e1(1) by simp
    have p: "\<And>prev. prompted prev (ext1 @ [Returned InContext i rets])"
      using e1(2) by (simp add: prompted_append)
    show ?thesis
      using t p stop(1) e1(3)
      by (intro exI [of _ "?inv # ext1 @ [Returned InContext i rets]"]) auto
  next
    case (again body rets i1 st1)
    from "1.IH"(1) [OF again(1,2) refl refl _ again(3)] obtain ext1 where
      e1: "trace st1 = trace st @ ?inv # ext1" "\<And>prev. prompted prev ext1"
        "(\<forall>r. act \<noteq> RouterHandle r) \<longrightarrow> (\<forall>vals. ReturnHandled vals \<notin> set ext1)"
      by auto
    from "1.IH"(2) [OF again(1,2) refl refl _ again(3) refl refl _ again(5)] again(4)
    obtain ext2 where
      e2: "trace (snd s') = trace (emit (Returned InContext i rets) st1) @ ext2"
        "\<And>prev. prompted prev ext2"
        "(\<forall>r. act \<noteq> RouterHandle r) \<longrightarrow> (\<forall>vals. ReturnHandled vals \<notin> set ext2)"
      by auto
    have t: "trace (snd s') = trace st @ ?inv # ext1 @ Returned InContext i rets # ext2"
      using e2(1) e1(1) by simp
    have p: "\<And>prev. prompted prev (ext1 @ Returned InContext i rets # ext2)"
      using e1(2) e2(2) by (simp add: prompted_append)
    show ?thesis
      using t p again(1) e1(3) e2(3)
      by (intro exI [of _ "?inv # ext1 @ Returned InContext i rets # ext2"]) auto
  qed
next
  case (2 hs act i st)
  then show ?case by (simp add: context_exec.simps)
next
  case (3 hs act a as i st)
  from "3.prems" show ?case
  proof (cases rule: context_exec_Body_cases)
    case prim
    have "\<exists>ext. trace (snd s') = trace (st\<lparr>rw := do_action a (rw st)\<rparr>) @ ext
        \<and> (\<forall>prev. prompted prev ext)
        \<and> ((\<forall>r. act \<noteq> RouterHandle r) \<longrightarrow> (\<forall>vals. ReturnHandled vals \<notin> set ext))"
    proof (cases a)
      case (DoWriteHeader x)
      from "3.IH"(1) [OF this prim(3)] show ?thesis by simp
    next
      case (DoWrite x)
      from "3.IH"(2) [OF this prim(3)] show ?thesis by simp
    next
      case (DoBefore x)
      from "3.IH"(3) [OF this prim(3)] show ?thesis by simp
    next
      case DoNext
      with prim show ?thesis by simp
    next
      case DoPanic
      with prim show ?thesis by simp
    qed
    then show ?thesis by simp
  next
    case (resume i1 st1)
    from "3.IH"(4) [OF resume(1,2)] obtain ext1 where
      e1: "trace st1 = trace st @ NextCalled InContext # ext1"
        "prompted (Some (NextCalled InContext)) ext1"
        "(\<forall>r. act \<noteq> RouterHandle r) \<longrightarrow> (\<forall>vals. ReturnHandled vals \<notin> set ext1)"
      by auto
    from "3.IH"(5) [OF resume(1,2) refl resume(3)] obtain ext2 where
      e2: "trace (snd s') = trace st1 @ ext2" "\<And>prev. prompted prev ext2"
        "(\<forall>r. act \<noteq> RouterHandle r) \<longrightarrow> (\<forall>vals. ReturnHandled vals \<notin> set ext2)"
      by auto
    have t: "trace (snd s') = trace st @ NextCalled InContext # ext1 @ ext2"
      using e1(1) e2(1) by simp
    have p: "\<And>prev. prompted prev (NextCalled InContext # ext1 @ ext2)"
      using e1(2) e2(2) by (simp add: prompted_append)
    show ?thesis
      using t p e1(3) e2(3) by (intro exI [of _ "NextCalled InContext # ext1 @ ext2"]) auto
  qed
qed

lemma context_exec_plain_body:
  "DoNext \<notin> set as \<Longrightarrow> DoPanic \<notin> set as \<Longrightarrow>
   context_exec hs act (Body as) (i, st) = Inr (i, st\<lparr>rw := fold do_action as (rw st)\<rparr>)"
proof (induction as arbitrary: st)
  case Nil
  then show ?case by (simp add: context_exec.simps)
next
  case (Cons a as)
  then show ?case by (cases a) (simp_all add: context_exec.simps)
qed

lemma context_exec_plain_step:
  assumes "i \<le> length hs" "context_handler hs act i = Inr (Plain (Callable True body rets))"
    "DoNext \<notin> set body" "DoPanic \<notin> set body"
  shows "context_exec hs act Run (i, st) =
     (let st1 = (emit (Invoked InContext i (Written (rw st))) st)\<lparr>rw := fold do_action body (rw st)\<rparr>;
          st2 = emit (Returned InContext i rets) st1
      in if Written (rw st2) then Inr (i + 1, st2) else context_exec hs act Run (i + 1, st2))"
  using assms by (subst context_exec.simps) (simp add: context_exec_plain_body Let_def)


text \<open>
  The route pipeline records no event of the global pipeline, and a pipeline whose
  handlers do not call \<^verbatim>\<open>Next\<close> records no call of \<^verbatim>\<open>Next\<close>.
\<close>

fun of_level :: "level \<Rightarrow> tevent \<Rightarrow> bool" where
  "of_level l (Invoked l' i w) = (l = l')"
| "of_level l (NextCalled l') = (l = l')"
| "of_level l (Returned l' i vals) = (l = l')"
| "of_level l (ReturnHandled vals) = False"

fun is_next :: "tevent \<Rightarrow> bool" where
  "is_next (NextCalled l) = True"
| "is_next e = False"

definition next_free :: "handler list \<Rightarrow> bool" where
  "next_free hs = list_all (\<lambda>h. DoNext \<notin> set (body_of h)) hs"

lemma next_free_nth:
  "next_free hs \<Longrightarrow> i < length hs \<Longrightarrow> hs ! i = Callable ok body rets \<Longrightarrow> DoNext \<notin> set body"
  by (metis body_of.simps(1) list_all_length next_free_def)

lemma route_trace_levels:
  "route_exec hs t s = Inr s' \<Longrightarrow>
   \<exists>ext. trace (snd s') = trace (snd s) @ ext
     \<and> \<not> list_ex (of_level InContext) ext
     \<and> (next_free hs \<and> (\<forall>as. t = Body as \<longrightarrow> DoNext \<notin> set as) \<longrightarrow> \<not> list_ex is_next ext)"
proof (induction hs t s arbitrary: s' rule: route_exec.induct)
  case (1 hs i st)
  let ?inv = "Invoked InRoute i (Written (rw st))"
  from "1.prems" show ?case
  proof (cases rule: route_exec_Run_cases)
    case out
    then show ?thesis by simp
  next
    case (stop body rets i1 st1)
    from "1.IH"(1) [OF stop(1,2) _ stop(3)] obtain ext1 where
      e1: "trace st1 = trace st @ ?inv # ext1" "\<not> list_ex (of_level InContext) ext1"
        "next_free hs \<and> DoNext \<notin> set body \<longrightarrow> \<not> list_ex is_next ext1"
      by auto
    let ?tail = "if 0 < length rets then [Returned InRoute i rets, ReturnHandled rets]
                 else [Returned InRoute i rets]"
    have t: "trace (snd s') = trace st @ ?inv # ext1 @ ?tail"
      using stop(5) e1(1) by simp
    have n: "next_free hs \<longrightarrow> DoNext \<notin> set body"
      using next_free_nth [OF _ stop(1,2)] by blast
    show ?thesis
      using t e1(2,3) n
      by (intro exI [of _ "?inv # ext1 @ ?tail"]) auto
  next
    case (again body rets i1 st1)
    let ?st3 = "if 0 < length rets then handleReturn rets (emit (Returned InRoute i rets) st1)
                    else emit (Returned InRoute i rets) st1"
    from "1.IH"(1) [OF again(1,2) _ again(3)] obtain ext1 where
      e1: "trace st1 = trace st @ ?inv # ext1" "\<not> list_ex (of_level InContext) ext1"
        "next_free hs \<and> DoNext \<notin> set body \<longrightarrow> \<not> list_ex is_next ext1"
      by auto
    from "1.IH"(2) [OF again(1,2) _ again(3) _ refl refl again(4) again(5)]
    obtain ext2 where
      e2: "trace (snd s') = trace ?st3 @ ext2" "\<not> list_ex (of_level InContext) ext2"
        "next_free hs \<longrightarrow> \<not> list_ex is_next ext2"
      by auto
    let ?tail = "if 0 < length rets then [Returned InRoute i rets, ReturnHandled rets]
                 else [Returned InRoute i rets]"
    have t: "trace (snd s') = trace st @ ?inv # ext1 @ ?tail @ ext2"
      using e2(1) e1(1) by simp
    have n: "next_free hs \<longrightarrow> DoNext \<notin> set body"
      using next_free_nth [OF _ again(1,2)] by blast
    show ?thesis
      using t e1(2,3) e2(2,3) n
      by (intro exI [of _ "?inv # ext1 @ ?tail @ ext2"]) auto
  qed
next
  case (2 hs i st)
  then show ?case by (simp add: route_exec.simps)
next
  case (3 hs a as i st)
  from "3.prems" show ?case
  proof (cases rule: route_exec_Body_cases)
    case prim
    have "\<exists>ext. trace (snd s') = trace (st\<lparr>rw := do_action a (rw st)\<rparr>) @ ext
        \<and> \<not> list_ex (of_level InContext) ext
        \<and> (next_free hs \<and> DoNext \<notin> set as \<longrightarrow> \<not> list_ex is_next ext)"
    proof (cases a)
      case (DoWriteHeader x)
      from "3.IH"(1) [OF this prim(3)] show ?thesis by simp
    next
      case (DoWrite x)
      from "3.IH"(2) [OF this prim(3)] show ?thesis by simp
    next
      case (DoBefore x)
      from "3.IH"(3) [OF this prim(3)] show ?thesis by simp
    next
      case DoNext
      with prim show ?thesis by simp
    next
      case DoPanic
      with prim show ?thesis by simp
    qed
    then show ?thesis by auto
  next
    case (resume i1 st1)
    from "3.IH"(4) [OF resume(1,2)] obtain ext1 where
      e1: "trace st1 = trace st @ NextCalled InRoute # ext1"
        "\<not> list_ex (of_level InContext) ext1"
      by auto
    from "3.IH"(5) [OF resume(1,2) refl resume(3)] obtain ext2 where
      e2: "trace (snd s') = trace st1 @ ext2" "\<not> list_ex (of_level InContext) ext2"
      by auto
    have t: "trace (snd s') = trace st @ NextCalled InRoute # ext1 @ ext2"
      using e1(1) e2(1) by simp
    show ?thesis
      using t e1(2) e2(2) resume(1)
      by (intro exI [of _ "NextCalled InRoute # ext1 @ ext2"]) auto
  qed
qed

lemma Handle_routes_levels:
  "Handle_routes rs nf st = Inr st' \<Longrightarrow>
   \<exists>ext. trace st' = trace st @ ext \<and> \<not> list_ex (of_level InContext) ext"
proof (induction rs)
  case Nil
  then obtain i where r: "route_exec nf Run (0, st) = Inr (i, st')"
    by (auto split: sum.splits)
  from route_trace_levels [OF r] show ?case by auto
next
  case (Cons rt rs)
  obtain ok vals where m: "Match rt (Method (req st)) (Path (req st)) = (ok, vals)"
    by (cases "Match rt (Method (req st)) (Path (req st))")
  show ?case
  proof (cases ok)
    case True
    with Cons.prems m obtain i where
      r: "route_exec (rhandlers rt) Run (0, st\<lparr>params := Some vals\<rparr>) = Inr (i, st')"
      by (auto simp: route_Handle_def split: sum.splits)
    from route_trace_levels [OF r] show ?thesis by auto
  next
    case False
    with Cons m show ?thesis by simp
  qed
qed

lemma context_trace_next_free:
  "context_exec hs act t s = Inr s' \<Longrightarrow> next_free hs \<Longrightarrow> DoNext \<notin> set (entry_body act) \<Longrightarrow>
   (\<forall>as. t = Body as \<longrightarrow> DoNext \<notin> set as) \<Longrightarrow>
   \<exists>ext. trace (snd s') = trace (snd s) @ ext
     \<and> \<not> list_ex (\<lambda>e. e = NextCalled InContext) ext"
proof (induction hs act t s arbitrary: s' rule: context_exec.induct)
  case (1 hs act i st)
  let ?inv = "Invoked InContext i (Written (rw st))"
  have nb: "\<And>body rets. context_handler hs act i = Inr (Plain (Callable True body rets))
      \<Longrightarrow> DoNext \<notin> set body"
  proof -
    fix body rets
    assume c: "context_handler hs act i = Inr (Plain (Callable True body rets))"
    show "DoNext \<notin> set body"
    proof (cases "i < length hs")
      case True
      with c have "hs ! i = Callable True body rets" by (simp add: context_handler_def)
      from next_free_nth [OF "1.prems"(2) True this] show ?thesis .
    next
      case False
      with c have "act = Plain (Callable True body rets)"
        by (auto simp: context_handler_def split: if_splits)
      with "1.prems"(3) show ?thesis by simp
    qed
  qed
  from "1.prems"(1) show ?case
  proof (cases rule: context_exec_Run_cases)
    case out
    then show ?thesis by simp
  next
    case (routed r st1)
    from Handle_routes_levels [of "routes r" "notFounds r" "emit ?inv st" st1] routed(3)
    obtain ext1 where
      e1: "trace st1 = trace st @ ?inv # ext1" "\<not> list_ex (of_level InContext) ext1"
      by (auto simp: Handle_def)
    from e1(2) have n1: "\<not> list_ex (\<lambda>e. e = NextCalled InContext) ext1"
      by (auto simp: list_ex_iff)
    have t: "trace (snd s') = trace st @ ?inv # ext1 @ [Returned InContext i []]"
      using routed(5) e1(1) by simp
    show ?thesis
      using t n1 by (intro exI [of _ "?inv # ext1 @ [Returned InContext i []]"]) auto
  next
    case (routed_again r st1)
    from Handle_routes_levels [of "routes r" "notFounds r" "emit ?inv st" st1] routed_again(3)
    obtain ext1 where
      e1: "trace st1 = trace st @ ?inv # ext1" "\<not> list_ex (of_level InContext) ext1"
      by (auto simp: Handle_def)
    from e1(2) have n1: "\<not> list_ex (\<lambda>e. e = NextCalled InContext) ext1"
      by (auto simp: list_ex_iff)
    from "1.IH"(3) [OF routed_again(1,2) refl routed_again(3) refl _ routed_again(5)
        "1.prems"(2,3)] routed_again(4)
    obtain ext2 where
      e2: "trace (snd s') = trace (emit (Returned InContext i []) st1) @ ext2"
        "\<not> list_ex (\<lambda>e. e = NextCalled InContext) ext2"
      by auto
    have t: "trace (snd s') = trace st @ ?inv # ext1 @ Returned InContext i [] # ext2"
      using e2(1) e1(1) by simp
    show ?thesis
      using t n1 e2(2)
      by (intro exI [of _ "?inv # ext1 @ Returned InContext i [] # ext2"]) auto
  next
    case (stop body rets i1 st1)
    from "1.IH"(1) [OF stop(1,2) refl refl _ stop(3) "1.prems"(2,3)] nb [OF stop(2)]
    obtain ext1 where
      e1: "trace st1 = trace st @ ?inv # ext1"
        "\<not> list_ex (\<lambda>e. e = NextCalled InContext) ext1"
      by auto
    have t: "trace (snd s') = trace st @ ?inv # ext1 @ [Returned InContext i rets]"
      using stop(5) e1(1) by simp
    show ?thesis
      using t e1(2)
      by (intro exI [of _ "?inv # ext1 @ [Returned InContext i rets]"]) auto
  next
    case (again body rets i1 st1)
    from "1.IH"(1) [OF again(1,2) refl refl _ again(3) "1.prems"(2,3)] nb [OF again(2)]
    obtain ext1 where
      e1: "trace st1 = trace st @ ?inv # ext1"
        "\<not> list_ex (\<lambda>e. e = NextCalled InContext) ext1"
      by auto
    from "1.IH"(2) [OF again(1,2) refl refl _ again(3) refl refl _ again(5) "1.prems"(2,3)]
      again(4)
    obtain ext2 where
      e2: "trace (snd s') = trace (emit (Returned InContext i rets) st1) @ ext2"
        "\<not> list_ex (\<lambda>e. e = NextCalled InContext) ext2"
      by auto
    have t: "trace (snd s') = trace st @ ?inv # ext1 @ Returned InContext i rets # ext2"
      using e2(1) e1(1) by simp
    show ?thesis
      using t e1(2) e2(2)
      by (intro exI [of _ "?inv # ext1 @ Returned InContext i rets # ext2"]) auto
  qed
next
  case (2 hs act i st)
  then show ?case by (simp add: context_exec.simps)
next
  case (3 hs act a as i st)
  from "3.prems"(4) have na: "a \<noteq> DoNext" "DoNext \<notin> set as" by auto
  from "3.prems"(1) show ?case
  proof (cases rule: context_exec_Body_cases)
    case prim
    have "\<exists>ext. trace (snd s') = trace (st\<lparr>rw := do_action a (rw st)\<rparr>) @ ext
        \<and> \<not> list_ex (\<lambda>e. e = NextCalled InContext) ext"
    proof (cases a)
      case (DoWriteHeader x)
      from "3.IH"(1) [OF this prim(3) "3.prems"(2,3)] na(2) show ?thesis by simp
    next
      case (DoWrite x)
      from "3.IH"(2) [OF this prim(3) "3.prems"(2,3)] na(2) show ?thesis by simp
    next
      case (DoBefore x)
      from "3.IH"(3) [OF this prim(3) "3.prems"(2,3)] na(2) show ?thesis by simp
    next
      case DoNext
      with prim show ?thesis by simp
    next
      case DoPanic
      with prim show ?thesis by simp
    qed
    then show ?thesis by simp
  next
    case (resume i1 st1)
    with na show ?thesis by simp
  qed
qed

text \<open>
  In a prompted trace without calls of \<^verbatim>\<open>Next\<close>, the only invocation that can find the
  response written is that of the first handler of a route context.
\<close>

lemma prompted_without_next:
  "prompted prev es \<Longrightarrow> \<not> list_ex (\<lambda>e. e = NextCalled l) es \<Longrightarrow> prev \<noteq> Some (NextCalled l) \<Longrightarrow>
   Invoked l i True \<in> set es \<Longrightarrow> l = InRoute \<and> i = 0"
proof (induction es arbitrary: prev)
  case Nil
  then show ?case by simp
next
  case (Cons e es)
  show ?case
  proof (cases "e = Invoked l i True")
    case True
    with Cons.prems(1,3) show ?thesis by simp
  next
    case False
    with Cons.prems have "prompted (Some e) es" "\<not> list_ex (\<lambda>e. e = NextCalled l) es"
      "Some e \<noteq> Some (NextCalled l)" "Invoked l i True \<in> set es"
      by auto
    from Cons.IH [OF this] show ?thesis .
  qed
qed

text \<open>
  C3, as stated: once the response is written no handler at a later index is invoked,
  also when a middleware writes and then calls \<^verbatim>\<open>Next\<close>. \<^verbatim>\<open>Next\<close> increments the index and
  enters \<^verbatim>\<open>run\<close>, whose loop tests \<^verbatim>\<open>Written()\<close> only after the handler it has invoked
  returns: in both pipelines the second handler is invoked on the written response.
\<close>

theorem next_after_write_counterexample:
  "trace (snd (projr (route_exec
       [Callable True [DoWrite ''x'', DoNext] [], Callable True [DoWrite ''y''] []] Run
       (createContext New recorder \<lparr>Method = ''GET'', Path = ''/''\<rparr>))))
     = [Invoked InRoute 0 False, NextCalled InRoute, Invoked InRoute 1 True,
        Returned InRoute 1 [], Returned InRoute 0 []]
   \<and> trace (projr (ServeHTTP
       (New\<lparr>handlers := [Callable True [DoWrite ''x'', DoNext] [], Callable True [DoWrite ''y''] []]\<rparr>)
       recorder \<lparr>Method = ''GET'', Path = ''/''\<rparr>))
     = [Invoked InContext 0 False, NextCalled InContext, Invoked InContext 1 True,
        Returned InContext 1 [], Returned InContext 0 []]"
  by (simp add: route_exec.simps context_exec.simps ServeHTTP_def context_handler_def
      createContext_def New_def Written_def Write_fields NewResponseWriter_def StatusOK_def Let_def)

text \<open>
  C3, amended: in both pipelines the loop of \<^verbatim>\<open>run\<close> tests \<^verbatim>\<open>Written()\<close> each time a
  handler it invoked has returned and returns when the response is written, so that
  the loop itself never goes on to a handler on a written response. A handler is
  invoked while the response is written in two ways only: directly by a call of
  \<^verbatim>\<open>Next\<close>, which advances the index and invokes the handler there without a test
  (whoever wrote the response, the caller or a handler run by an earlier \<^verbatim>\<open>Next\<close> of the
  caller), or as the first handler of a route context, which \<^verbatim>\<open>route.Handle\<close> invokes
  without a test. So in a pipeline none of whose handlers calls \<^verbatim>\<open>Next\<close>, once the
  response is written no handler at a later index is invoked: in the global pipeline
  no handler is ever invoked on a written response, and in a route pipeline at most
  the first one, when the response was written before the route was entered.
\<close>

theorem run_stops_when_written:
  "(route_Handle rt st = Inr st' \<longrightarrow>
      (\<exists>ext. trace st' = trace st @ ext \<and> prompted prev ext
         \<and> (next_free (rhandlers rt) \<longrightarrow> (\<forall>i. Invoked InRoute i True \<in> set ext \<longrightarrow> i = 0))))
   \<and> (ServeHTTP m res r = Inr st' \<longrightarrow>
      prompted prev (trace st')
      \<and> (next_free (handlers m) \<and> DoNext \<notin> set (entry_body (action m)) \<longrightarrow>
           (\<forall>i. Invoked InContext i True \<notin> set (trace st'))))
   \<and> (i < length hs \<and> hs ! i = Callable True body rets
        \<and> DoNext \<notin> set body \<and> DoPanic \<notin> set body \<longrightarrow>
      route_exec hs Run (i, st) =
        (let st1 = (emit (Invoked InRoute i (Written (rw st))) st)
                     \<lparr>rw := fold do_action body (rw st)\<rparr>;
             st2 = emit (Returned InRoute i rets) st1;
             st3 = (if rets \<noteq> [] then handleReturn rets st2 else st2)
         in if Written (rw st3) then Inr (i + 1, st3) else route_exec hs Run (i + 1, st3)))
   \<and> (i \<le> length hs \<and> context_handler hs act i = Inr (Plain (Callable True body rets))
        \<and> DoNext \<notin> set body \<and> DoPanic \<notin> set body \<longrightarrow>
      context_exec hs act Run (i, st) =
        (let st1 = (emit (Invoked InContext i (Written (rw st))) st)
                     \<lparr>rw := fold do_action body (rw st)\<rparr>;
             st2 = emit (Returned InContext i rets) st1
         in if Written (rw st2) then Inr (i + 1, st2) else context_exec hs act Run (i + 1, st2)))"
proof -
  have c1: "route_Handle rt st = Inr st' \<longrightarrow>
      (\<exists>ext. trace st' = trace st @ ext \<and> prompted prev ext
         \<and> (next_free (rhandlers rt) \<longrightarrow> (\<forall>i. Invoked InRoute i True \<in> set ext \<longrightarrow> i = 0)))"
  proof
    assume "route_Handle rt st = Inr st'"
    then obtain k where k: "route_exec (rhandlers rt) Run (0, st) = Inr (k, st')"
      by (auto simp: route_Handle_def split: sum.splits)
    from route_trace_prompted [OF k] obtain ext where
      e: "trace st' = trace st @ ext" "\<And>prev. prompted prev ext"
      by auto
    from route_trace_levels [OF k] e(1) have
      n: "next_free (rhandlers rt) \<longrightarrow> \<not> list_ex is_next ext"
      by auto
    have "next_free (rhandlers rt) \<longrightarrow> (\<forall>i. Invoked InRoute i True \<in> set ext \<longrightarrow> i = 0)"
    proof (intro impI allI)
      fix i assume nf: "next_free (rhandlers rt)" and iv: "Invoked InRoute i True \<in> set ext"
      from n nf have "\<not> list_ex (\<lambda>e. e = NextCalled InRoute) ext"
        by (auto simp: list_ex_iff)
      from prompted_without_next [OF e(2) [of None] this _ iv] show "i = 0" by simp
    qed
    with e show "\<exists>ext. trace st' = trace st @ ext \<and> prompted prev ext
         \<and> (next_free (rhandlers rt) \<longrightarrow> (\<forall>i. Invoked InRoute i True \<in> set ext \<longrightarrow> i = 0))"
      by blast
  qed
  have c2: "ServeHTTP m res r = Inr st' \<longrightarrow>
      prompted prev (trace st')
      \<and> (next_free (handlers m) \<and> DoNext \<notin> set (entry_body (action m)) \<longrightarrow>
           (\<forall>i. Invoked InContext i True \<notin> set (trace st')))"
  proof
    assume "ServeHTTP m res r = Inr st'"
    then obtain k where
      k: "context_exec (handlers m) (action m) Run (createContext m res r) = Inr (k, st')"
      by (auto simp: ServeHTTP_def split: sum.splits)
    from context_traces [OF k] have p: "\<And>prev. prompted prev (trace st')"
      by (auto simp: createContext_def Written_def NewResponseWriter_def)
    have "next_free (handlers m) \<and> DoNext \<notin> set (entry_body (action m)) \<longrightarrow>
           (\<forall>i. Invoked InContext i True \<notin> set (trace st'))"
    proof (intro impI allI notI)
      fix i assume nf: "next_free (handlers m) \<and> DoNext \<notin> set (entry_body (action m))"
        and iv: "Invoked InContext i True \<in> set (trace st')"
      from nf have nf1: "next_free (handlers m)" and nf2: "DoNext \<notin> set (entry_body (action m))"
        by simp_all
      from context_trace_next_free [OF k nf1 nf2] have
        "\<not> list_ex (\<lambda>e. e = NextCalled InContext) (trace st')"
        by (auto simp: createContext_def)
      from prompted_without_next [OF p [of None] this _ iv] show False by simp
    qed
    with p show "prompted prev (trace st')
      \<and> (next_free (handlers m) \<and> DoNext \<notin> set (entry_body (action m)) \<longrightarrow>
           (\<forall>i. Invoked InContext i True \<notin> set (trace st')))"
      by blast
  qed
  have c3: "i < length hs \<and> hs ! i = Callable True body rets
        \<and> DoNext \<notin> set body \<and> DoPanic \<notin> set body \<longrightarrow>
      route_exec hs Run (i, st) =
        (let st1 = (emit (Invoked InRoute i (Written (rw st))) st)
                     \<lparr>rw := fold do_action body (rw st)\<rparr>;
             st2 = emit (Returned InRoute i rets) st1;
             st3 = (if rets \<noteq> [] then handleReturn rets st2 else st2)
         in if Written (rw st3) then Inr (i + 1, st3) else route_exec hs Run (i + 1, st3))"
    using route_exec_plain_step [of i hs body rets st] by simp
  have c4: "i \<le> length hs \<and> context_handler hs act i = Inr (Plain (Callable True body rets))
        \<and> DoNext \<notin> set body \<and> DoPanic \<notin> set body \<longrightarrow>
      context_exec hs act Run (i, st) =
        (let st1 = (emit (Invoked InContext i (Written (rw st))) st)
                     \<lparr>rw := fold do_action body (rw st)\<rparr>;
             st2 = emit (Returned InContext i rets) st1
         in if Written (rw st2) then Inr (i + 1, st2) else context_exec hs act Run (i + 1, st2))"
    using context_exec_plain_step [of i hs act body rets st] by simp
  from c1 c2 c3 c4 show ?thesis by (intro conjI)
qed

definition guarded :: "handler list" where
  "guarded = [Callable True [DoWriteHeader 401] [], Callable True [DoWrite ''secret''] []]"

text \<open>
  The first handler calls \<^verbatim>\<open>Next\<close> twice; the second writes and returns; the second
  \<^verbatim>\<open>Next\<close> of the first skips the third and invokes the fourth on the written response.
\<close>

definition relay :: "handler list" where
  "relay = [Callable True [DoNext, DoNext] [], Callable True [DoWrite ''x''] [],
            Callable True [] [], Callable True [DoWrite ''late''] []]"

theorem run_stops_when_written_witness:
  "trace (projr (ServeHTTP (New\<lparr>handlers := guarded\<rparr>) recorder \<lparr>Method = ''GET'', Path = ''/''\<rparr>))
     = [Invoked InContext 0 False, Returned InContext 0 []]
   \<and> (\<forall>i. Invoked InContext i True \<notin> set (trace (projr (ServeHTTP (New\<lparr>handlers := guarded\<rparr>)
        recorder \<lparr>Method = ''GET'', Path = ''/''\<rparr>))))
   \<and> trace (projr (route_Handle
        \<lparr>rmethod = ''GET'', regex = [], rhandlers = guarded, rpattern = [], rname = []\<rparr>
        (snd (createContext New recorder \<lparr>Method = ''GET'', Path = ''/''\<rparr>))))
     = [Invoked InRoute 0 False, Returned InRoute 0 []]
   \<and> trace (projr (ServeHTTP (New\<lparr>handlers := relay\<rparr>) recorder \<lparr>Method = ''GET'', Path = ''/''\<rparr>))
     = [Invoked InContext 0 False, NextCalled InContext, Invoked InContext 1 False,
        Returned InContext 1 [], NextCalled InContext, Invoked InContext 3 True,
        Returned InContext 3 [], Returned InContext 0 []]
   \<and> prompted None (trace (projr (ServeHTTP (New\<lparr>handlers := relay\<rparr>) recorder
        \<lparr>Method = ''GET'', Path = ''/''\<rparr>)))"
proof -
  let ?r = "\<lparr>Method = ''GET'', Path = ''/''\<rparr>"
  let ?st = "snd (createContext New recorder ?r)"
  let ?rt = "\<lparr>rmethod = ''GET'', regex = [], rhandlers = guarded, rpattern = [], rname = []\<rparr>"
  let ?m = "New\<lparr>handlers := guarded\<rparr>"
  let ?m2 = "New\<lparr>handlers := relay\<rparr>"
  let ?w = "\<lparr>ResponseWriter = recorder, log = [SinkStatus 401], status = 401, size = 0,
                     beforeFuncs = []\<rparr>"
  have a: "route_exec guarded Run (0, ?st)
     = Inr (1, \<lparr>req = ?r, rw = ?w, params = None, returnHandler = defaultReturnHandler,
               trace = [Invoked InRoute 0 False, Returned InRoute 0 []]\<rparr>)"
    using run_stops_when_written [where i = 0 and hs = guarded and body = "[DoWriteHeader 401]"
        and rets = "[]" and st = ?st, THEN conjunct2, THEN conjunct2, THEN conjunct1]
    by (simp add: guarded_def createContext_def New_def emit_def Written_def WriteHeader_def
        callBefore_def NewResponseWriter_def Let_def)
  have b: "context_exec guarded (action ?m) Run (0, snd (createContext ?m recorder ?r))
     = Inr (1, \<lparr>req = ?r, rw = ?w, params = None, returnHandler = defaultReturnHandler,
               trace = [Invoked InContext 0 False, Returned InContext 0 []]\<rparr>)"
    using run_stops_when_written [where i = 0 and hs = guarded and body = "[DoWriteHeader 401]"
        and rets = "[]" and st = "snd (createContext ?m recorder ?r)" and act = "action ?m",
        THEN conjunct2, THEN conjunct2, THEN conjunct2]
    by (simp add: guarded_def createContext_def New_def emit_def Written_def WriteHeader_def
        callBefore_def NewResponseWriter_def Let_def context_handler_def)
  then have s: "ServeHTTP ?m recorder ?r
     = Inr \<lparr>req = ?r, rw = ?w, params = None, returnHandler = defaultReturnHandler,
               trace = [Invoked InContext 0 False, Returned InContext 0 []]\<rparr>"
    by (simp add: ServeHTTP_def createContext_def New_def)
  have h: "route_Handle ?rt ?st
     = Inr \<lparr>req = ?r, rw = ?w, params = None, returnHandler = defaultReturnHandler,
               trace = [Invoked InRoute 0 False, Returned InRoute 0 []]\<rparr>"
    using a by (simp add: route_Handle_def)
  have nf: "next_free guarded" "DoNext \<notin> set (entry_body (action ?m))"
    by (simp_all add: next_free_def guarded_def New_def)
  have t2: "trace (projr (ServeHTTP ?m2 recorder ?r))
     = [Invoked InContext 0 False, NextCalled InContext, Invoked InContext 1 False,
        Returned InContext 1 [], NextCalled InContext, Invoked InContext 3 True,
        Returned InContext 3 [], Returned InContext 0 []]"
    and ok2: "\<not> isl (ServeHTTP ?m2 recorder ?r)"
    by (simp_all add: relay_def context_exec.simps ServeHTTP_def context_handler_def
        createContext_def New_def Written_def Write_fields NewResponseWriter_def StatusOK_def
        Let_def)
  from ok2 have e2: "ServeHTTP ?m2 recorder ?r = Inr (projr (ServeHTTP ?m2 recorder ?r))"
    by (cases "ServeHTTP ?m2 recorder ?r") simp_all
  show ?thesis
    using s h t2 nf
      run_stops_when_written [where m = ?m and res = recorder and r = ?r and prev = None
        and st' = "projr (ServeHTTP ?m recorder ?r)", THEN conjunct2, THEN conjunct1]
      run_stops_when_written [where m = ?m2 and res = recorder and r = ?r and prev = None
        and st' = "projr (ServeHTTP ?m2 recorder ?r)", THEN conjunct2, THEN conjunct1] e2
    by (simp add: createContext_def)
qed

text \<open>
  C4, as stated: in both run loops the values a handler returns are passed to the
  \<^verbatim>\<open>ReturnHandler\<close>. \<^verbatim>\<open>context.run\<close> drops what \<^verbatim>\<open>Invoke\<close> returns: a handler of the global
  pipeline that returns a string leaves the response empty, and the loop goes on to the
  action.
\<close>

theorem context_drops_returns_counterexample:
  "trace (projr (ServeHTTP (New\<lparr>handlers := [Callable True [] [StringVal ''string'' ''hi'']]\<rparr>) recorder
       \<lparr>Method = ''GET'', Path = ''/''\<rparr>))
     = [Invoked InContext 0 False, Returned InContext 0 [StringVal ''string'' ''hi''],
        Invoked InContext 1 False, Returned InContext 1 []]
   \<and> log (rw (projr (ServeHTTP (New\<lparr>handlers := [Callable True [] [StringVal ''string'' ''hi'']]\<rparr>) recorder
       \<lparr>Method = ''GET'', Path = ''/''\<rparr>))) = []"
  by (simp add: context_exec.simps ServeHTTP_def context_handler_def
      createContext_def New_def Written_def NewResponseWriter_def Let_def)

text \<open>
  C4, amended: in the run loop of the per-route pipeline, whenever an invoked handler
  returns one or more values, those values are passed to the registered
  \<^verbatim>\<open>ReturnHandler\<close> as soon as the handler has returned, before the loop tests
  \<^verbatim>\<open>Written()\<close> and before it invokes the next handler. The run loop of the global
  pipeline never calls the \<^verbatim>\<open>ReturnHandler\<close>: the values its handlers return are dropped.
\<close>

theorem route_returns_are_handled:
  "(route_exec hs t s = Inr s' \<longrightarrow>
      (\<exists>ext. trace (snd s') = trace (snd s) @ ext \<and> returns_handled ext))
   \<and> (i < length hs \<and> hs ! i = Callable True body rets
        \<and> DoNext \<notin> set body \<and> DoPanic \<notin> set body \<longrightarrow>
      route_exec hs Run (i, st) =
        (let st1 = (emit (Invoked InRoute i (Written (rw st))) st)
                     \<lparr>rw := fold do_action body (rw st)\<rparr>;
             st2 = emit (Returned InRoute i rets) st1;
             st3 = (if rets \<noteq> [] then handleReturn rets st2 else st2)
         in if Written (rw st3) then Inr (i + 1, st3) else route_exec hs Run (i + 1, st3)))
   \<and> rw (handleReturn vals st) = returnHandler st (rw st) vals
   \<and> trace (handleReturn vals st) = trace st @ [ReturnHandled vals]
   \<and> (context_exec hs (Plain h) t s = Inr s' \<longrightarrow>
      (\<exists>ext. trace (snd s') = trace (snd s) @ ext \<and> (\<forall>vals. ReturnHandled vals \<notin> set ext)))
   \<and> (i \<le> length hs \<and> context_handler hs act i = Inr (Plain (Callable True body rets))
        \<and> DoNext \<notin> set body \<and> DoPanic \<notin> set body \<longrightarrow>
      context_exec hs act Run (i, st) =
        (let st1 = (emit (Invoked InContext i (Written (rw st))) st)
                     \<lparr>rw := fold do_action body (rw st)\<rparr>;
             st2 = emit (Returned InContext i rets) st1
         in if Written (rw st2) then Inr (i + 1, st2) else context_exec hs act Run (i + 1, st2)))"
proof (intro conjI impI)
  assume "route_exec hs t s = Inr s'"
  from route_trace_returns [OF this]
  show "\<exists>ext. trace (snd s') = trace (snd s) @ ext \<and> returns_handled ext" .
next
  assume "i < length hs \<and> hs ! i = Callable True body rets
        \<and> DoNext \<notin> set body \<and> DoPanic \<notin> set body"
  then show "route_exec hs Run (i, st) =
        (let st1 = (emit (Invoked InRoute i (Written (rw st))) st)
                     \<lparr>rw := fold do_action body (rw st)\<rparr>;
             st2 = emit (Returned InRoute i rets) st1;
             st3 = (if rets \<noteq> [] then handleReturn rets st2 else st2)
         in if Written (rw st3) then Inr (i + 1, st3) else route_exec hs Run (i + 1, st3))"
    using route_exec_plain_step [of i hs body rets st] by simp
next
  show "rw (handleReturn vals st) = returnHandler st (rw st) vals" by simp
next
  show "trace (handleReturn vals st) = trace st @ [ReturnHandled vals]" by simp
next
  assume "context_exec hs (Plain h) t s = Inr s'"
  from context_traces [OF this]
  show "\<exists>ext. trace (snd s') = trace (snd s) @ ext \<and> (\<forall>vals. ReturnHandled vals \<notin> set ext)"
    by auto
next
  assume "i \<le> length hs \<and> context_handler hs act i = Inr (Plain (Callable True body rets))
        \<and> DoNext \<notin> set body \<and> DoPanic \<notin> set body"
  then show "context_exec hs act Run (i, st) =
        (let st1 = (emit (Invoked InContext i (Written (rw st))) st)
                     \<lparr>rw := fold do_action body (rw st)\<rparr>;
             st2 = emit (Returned InContext i rets) st1
         in if Written (rw st2) then Inr (i + 1, st2) else context_exec hs act Run (i + 1, st2))"
    using context_exec_plain_step [of i hs act body rets st] by simp
qed

definition greeting :: "handler list" where
  "greeting = [Callable True [] [IntVal ''int'' 201, StringVal ''string'' ''hi''], Callable True [DoWrite ''late''] []]"

theorem route_returns_are_handled_witness:
  "route_exec greeting Run (createContext New recorder \<lparr>Method = ''GET'', Path = ''/''\<rparr>)
     = Inr (1, \<lparr>req = \<lparr>Method = ''GET'', Path = ''/''\<rparr>,
               rw = \<lparr>ResponseWriter = recorder, log = [SinkStatus 201, SinkBody ''hi''], status = 201,
                     size = 2, beforeFuncs = []\<rparr>,
               params = None, returnHandler = defaultReturnHandler,
               trace = [Invoked InRoute 0 False, Returned InRoute 0 [IntVal ''int'' 201, StringVal ''string'' ''hi''],
                        ReturnHandled [IntVal ''int'' 201, StringVal ''string'' ''hi'']]\<rparr>)
   \<and> returns_handled (trace (snd (projr (route_exec greeting Run
          (createContext New recorder \<lparr>Method = ''GET'', Path = ''/''\<rparr>)))))
   \<and> (\<forall>vals. ReturnHandled vals \<notin> set (trace (snd (projr (context_exec greeting
          (Plain (Callable True [] [])) Run
          (createContext New recorder \<lparr>Method = ''GET'', Path = ''/''\<rparr>))))))"
proof -
  let ?r = "\<lparr>Method = ''GET'', Path = ''/''\<rparr>"
  let ?s = "createContext New recorder ?r"
  have w: "defaultReturnHandler \<lparr>ResponseWriter = recorder, log = [], status = 0, size = 0,
         beforeFuncs = []\<rparr>
       [IntVal ''int'' 201, StringVal ''string'' ''hi'']
     = \<lparr>ResponseWriter = recorder, log = [SinkStatus 201, SinkBody ''hi''], status = 201,
                     size = 2, beforeFuncs = []\<rparr>"
    by (simp add: defaultReturnHandler_def canDeref_def isByteSlice_def Write_def WriteHeader_def
        callBefore_def Written_def Let_def recorder_def)
  have a: "route_exec greeting Run ?s
     = Inr (1, \<lparr>req = ?r,
               rw = \<lparr>ResponseWriter = recorder, log = [SinkStatus 201, SinkBody ''hi''], status = 201,
                     size = 2, beforeFuncs = []\<rparr>,
               params = None, returnHandler = defaultReturnHandler,
               trace = [Invoked InRoute 0 False, Returned InRoute 0 [IntVal ''int'' 201, StringVal ''string'' ''hi''],
                        ReturnHandled [IntVal ''int'' 201, StringVal ''string'' ''hi'']]\<rparr>)"
    using route_returns_are_handled [where i = 0 and hs = greeting and body = "[]"
        and rets = "[IntVal ''int'' 201, StringVal ''string'' ''hi'']" and st = "snd ?s"]
    by (simp add: greeting_def createContext_def New_def emit_def handleReturn_def Written_def
        NewResponseWriter_def Let_def w)
  have c: "context_exec greeting (Plain (Callable True [] [])) Run ?s
     = Inr (2, \<lparr>req = ?r,
               rw = \<lparr>ResponseWriter = recorder, log = [SinkStatus 200, SinkBody ''late''], status = 200,
                     size = 4, beforeFuncs = []\<rparr>,
               params = None, returnHandler = defaultReturnHandler,
               trace = [Invoked InContext 0 False, Returned InContext 0 [IntVal ''int'' 201, StringVal ''string'' ''hi''],
                        Invoked InContext 1 False, Returned InContext 1 []]\<rparr>)"
    by (simp add: context_exec.simps greeting_def createContext_def New_def emit_def Written_def
        context_handler_def Write_def WriteHeader_def callBefore_def StatusOK_def
        NewResponseWriter_def Let_def recorder_def)
  show ?thesis
    using a c
      route_returns_are_handled [where hs = greeting and t = Run and s = ?s
        and s' = "projr (route_exec greeting Run ?s)"]
      route_returns_are_handled [where hs = greeting and t = Run and s = ?s
        and h = "Callable True [] []"
        and s' = "projr (context_exec greeting (Plain (Callable True [] [])) Run ?s)"]
    by (simp add: createContext_def)
qed

subsection \<open>Dispatch\<close>









end
